theory Spec2Isabelle
  imports Main "HOL-Library.Multiset"
begin

text \<open>
  A model of the Discord message exporter \<open>main.ts\<close>: the channel-name sanitizer, the
  record mapper \<open>toRecord\<close>, the partition writer \<open>writeJson\<close>, the page writer
  \<open>writeMessages\<close> and the traversal \<open>backfill\<close>. Pure functions are HOL functions;
  the file system is a state that is passed along; what raises in the source returns an
  error; the loop of the traversal runs on fuel. The gateway client, the clock's time
  zone, the lower-case mapping of Unicode and the file system are parameters or models
  of the environment.
\<close>

section \<open>Strings\<close>

text \<open>
  A JavaScript string is a sequence of UTF-16 code units. The strings that the program
  takes apart, the channel name and the paths, are modelled as lists of code units, a
  code unit being a natural number (below 65536; nothing here depends on the bound).
  The strings that the program only passes along or writes from ASCII digits are kept
  as \<open>string\<close>; \<open>units\<close> gives the code units of such a text.
\<close>

type_synonym ustring = "nat list"

definition units :: "string \<Rightarrow> ustring" where
  "units s = map of_char s"

definition dash :: nat where
  "dash = 0x2D"

definition dot :: nat where
  "dot = 0x2E"

definition slash :: nat where
  "slash = 0x2F"

text \<open>The class \<open>[<>:"/\\|?*]\<close> of the first \<open>replace\<close> in \<open>sanitizeChannelName\<close>, in the
  order written: \<open><\<close> 3C, \<open>>\<close> 3E, \<open>:\<close> 3A, the double quote 22, \<open>/\<close> 2F, the backslash 5C,
  \<open>|\<close> 7C, \<open>?\<close> 3F, \<open>*\<close> 2A.\<close>

definition forbidden_units :: "nat list" where
  "forbidden_units = [0x3C, 0x3E, 0x3A, 0x22, 0x2F, 0x5C, 0x7C, 0x3F, 0x2A]"

text \<open>
  The class \<open>\\s\<close>, the white space and the line terminators of ECMAScript: tab, line
  feed, vertical tab, form feed, carriage return, space, U+00A0, U+1680, U+2000 to
  U+200A, U+2028, U+2029, U+202F, U+205F, U+3000 and U+FEFF.
\<close>

definition space_units :: "nat list" where
  "space_units =
     [0x09, 0x0A, 0x0B, 0x0C, 0x0D, 0x20, 0xA0, 0x1680,
      0x2000, 0x2001, 0x2002, 0x2003, 0x2004, 0x2005, 0x2006, 0x2007, 0x2008, 0x2009, 0x200A,
      0x2028, 0x2029, 0x202F, 0x205F, 0x3000, 0xFEFF]"

definition is_space :: "nat \<Rightarrow> bool" where
  "is_space c = (c \<in> set space_units)"

text \<open>\<open>.replace(/[<>:"/\\|?*]/g, "-")\<close>: every code unit of the class becomes a dash.\<close>

definition replace_forbidden :: "ustring \<Rightarrow> ustring" where
  "replace_forbidden s = map (\<lambda>c. if c \<in> set forbidden_units then dash else c) s"

text \<open>\<open>.replace(/\\s+/g, "-")\<close>: every maximal run of white space becomes one dash.\<close>

function replace_spaces :: "ustring \<Rightarrow> ustring" where
  "replace_spaces [] = []"
| "replace_spaces (c # cs) =
     (if is_space c then dash # replace_spaces (dropWhile is_space cs)
      else c # replace_spaces cs)"
  by pat_completeness auto
termination
  by (relation "measure length") (auto simp: less_Suc_eq_le length_dropWhile_le)

text \<open>\<open>.replace(/^\\.+/, "")\<close>: the leading dots are removed.\<close>

definition strip_leading_dots :: "ustring \<Rightarrow> ustring" where
  "strip_leading_dots s = dropWhile (\<lambda>c. c = dot) s"

text \<open>
  \<open>sanitizeChannelName\<close>. The last step, \<open>String.prototype.toLowerCase\<close>, applies the
  lower-case mapping of the Unicode character database, which is not part of the
  program: it is the parameter \<open>toLowerCase\<close>, a function on strings (the mapping can
  change the length of a string and looks at the context of a letter).
\<close>

definition sanitizeChannelName :: "(ustring \<Rightarrow> ustring) \<Rightarrow> ustring \<Rightarrow> ustring" where
  "sanitizeChannelName toLowerCase name =
     toLowerCase (strip_leading_dots (replace_spaces (replace_forbidden name)))"

subsection \<open>Numbers as text\<close>

definition digit_char :: "nat \<Rightarrow> char" where
  "digit_char d = ''0123456789'' ! (d mod 10)"

text \<open>\<open>String(n)\<close> for a natural number and for an integer.\<close>

fun string_of_nat :: "nat \<Rightarrow> string" where
  "string_of_nat n =
     (if n < 10 then [digit_char n] else string_of_nat (n div 10) @ [digit_char (n mod 10)])"

declare string_of_nat.simps [simp del]

definition string_of_int :: "int \<Rightarrow> string" where
  "string_of_int i = (if i < 0 then CHR ''-'' # string_of_nat (nat (- i)) else string_of_nat (nat i))"

text \<open>\<open>s.padStart(n, "0")\<close>.\<close>

definition padStart :: "nat \<Rightarrow> string \<Rightarrow> string" where
  "padStart n s = replicate (n - length s) CHR ''0'' @ s"

section \<open>Dates\<close>

text \<open>
  A \<open>Date\<close> is modelled by its time value, the milliseconds since the epoch, an integer.
  A time value beyond 8.64e15 in absolute value is an invalid date in JavaScript.
\<close>

definition msPerDay :: int where
  "msPerDay = 86400000"

definition valid_time :: "int \<Rightarrow> bool" where
  "valid_time t = (- 8640000000000000 \<le> t \<and> t \<le> 8640000000000000)"

text \<open>The proleptic Gregorian date (year, month 1..12, day 1..31) of a day number
  counted from 1970-01-01.\<close>

definition civil_from_days :: "int \<Rightarrow> int \<times> int \<times> int" where
  "civil_from_days z0 =
     (let z = z0 + 719468;
          era = z div 146097;
          doe = z - era * 146097;
          yoe = (doe - doe div 1460 + doe div 36524 - doe div 146096) div 365;
          y = yoe + era * 400;
          doy = doe - (365 * yoe + yoe div 4 - yoe div 100);
          mp = (5 * doy + 2) div 153;
          d = doy - (153 * mp + 2) div 5 + 1;
          m = (if mp < 10 then mp + 3 else mp - 9)
      in (if m \<le> 2 then y + 1 else y, m, d))"

text \<open>
  \<open>localDate\<close> reads the date in the local time zone of the process. The zone is a
  parameter \<open>tz\<close>: the offset in milliseconds that local time adds to UTC at an instant.
\<close>

definition getFullYear :: "(int \<Rightarrow> int) \<Rightarrow> int \<Rightarrow> int" where
  "getFullYear tz t = fst (civil_from_days ((t + tz t) div msPerDay))"

definition getMonth :: "(int \<Rightarrow> int) \<Rightarrow> int \<Rightarrow> int" where
  "getMonth tz t = fst (snd (civil_from_days ((t + tz t) div msPerDay))) - 1"

definition getDate :: "(int \<Rightarrow> int) \<Rightarrow> int \<Rightarrow> int" where
  "getDate tz t = snd (snd (civil_from_days ((t + tz t) div msPerDay)))"

text \<open>On an invalid date the three getters return NaN, and the template prints it.\<close>

definition localDate :: "(int \<Rightarrow> int) \<Rightarrow> int \<Rightarrow> string" where
  "localDate tz d =
     (if \<not> valid_time d then ''NaN-NaN-NaN''
      else
        let y = getFullYear tz d;
            m = padStart 2 (string_of_int (getMonth tz d + 1));
            day = padStart 2 (string_of_int (getDate tz d))
        in string_of_int y @ ''-'' @ m @ ''-'' @ day)"

datatype error = RangeError | TypeError | FetchError string

text \<open>\<open>toISOString\<close>: the UTC date and time; a RangeError on an invalid date. A year
  outside 0..9999 is printed with a sign and six digits.\<close>

definition iso_year :: "int \<Rightarrow> string" where
  "iso_year y =
     (if 0 \<le> y \<and> y \<le> 9999 then padStart 4 (string_of_int y)
      else (if y < 0 then ''-'' else ''+'') @ padStart 6 (string_of_nat (nat \<bar>y\<bar>)))"

definition toISOString :: "int \<Rightarrow> error + string" where
  "toISOString t =
     (if \<not> valid_time t then Inl RangeError
      else
        let (y, m, d) = civil_from_days (t div msPerDay);
            ms = t mod msPerDay
        in Inr (iso_year y @ ''-'' @ padStart 2 (string_of_int m) @ ''-'' @ padStart 2 (string_of_int d)
                @ ''T'' @ padStart 2 (string_of_int (ms div 3600000))
                @ '':'' @ padStart 2 (string_of_int (ms div 60000 mod 60))
                @ '':'' @ padStart 2 (string_of_int (ms div 1000 mod 60))
                @ ''.'' @ padStart 3 (string_of_int (ms mod 1000)) @ ''Z''))"

section \<open>JSON values\<close>

text \<open>
  The object literal that \<open>toRecord\<close> returns, and what \<open>JSON.parse\<close> reads from a
  partition file, are JSON values. An object keeps its properties in the order written.
  Numbers are the integers, which is all the exporter writes.
\<close>

datatype json =
    JNull
  | JBool bool
  | JNum int
  | JStr string
  | JArr "json list"
  | JObj "(string \<times> json) list"

text \<open>Property access \<open>o.k\<close> on a JSON value: \<open>None\<close> stands for \<open>undefined\<close>.\<close>

fun jfield :: "string \<Rightarrow> json \<Rightarrow> json option" where
  "jfield k (JObj kvs) = map_of kvs k"
| "jfield k _ = None"

text \<open>\<open>x ?? null\<close> on an optional string and on an optional number.\<close>

definition str_or_null :: "string option \<Rightarrow> json" where
  "str_or_null x = (case x of None \<Rightarrow> JNull | Some s \<Rightarrow> JStr s)"

definition num_or_null :: "int option \<Rightarrow> json" where
  "num_or_null x = (case x of None \<Rightarrow> JNull | Some n \<Rightarrow> JNum n)"

section \<open>Configuration and messages\<close>

record Config =
  token :: string
  cfg_channel :: string
  outDir :: ustring
  cfg_start :: int
  cfg_end :: int
  redactContent :: bool

text \<open>The channel types of the client library; three of them are threads.\<close>

datatype ChannelType =
    GuildText | DM | GuildVoice | GroupDM | GuildCategory | GuildAnnouncement
  | AnnouncementThread | PublicThread | PrivateThread
  | GuildStageVoice | GuildDirectory | GuildForum | GuildMedia

record msg_channel =
  chan_type :: ChannelType

record user =
  user_id :: string
  username :: string
  discriminator :: string
  globalName :: "string option"
  bot :: bool

record message_reference =
  ref_messageId :: "string option"
  ref_channelId :: "string option"
  ref_guildId :: "string option"

record id_object =
  obj_id :: string

record message_mentions =
  users :: "user list"
  roles :: "id_object list"
  channels :: "id_object list"
  everyone :: bool

record attachment =
  att_id :: string
  url :: string
  proxyURL :: string
  att_name :: string
  att_size :: int
  contentType :: "string option"
  height :: "int option"
  width :: "int option"

record reaction =
  emoji :: string
  rcount :: int
  me :: bool

text \<open>
  The fields of the client library's \<open>Message\<close> that the exporter reads. \<open>author\<close> and
  \<open>reference\<close> may be null, \<open>guildId\<close> and \<open>editedTimestamp\<close> too; \<open>flags\<close> holds the
  bit field when the message has flags; an embed is kept as the value of its \<open>toJSON()\<close>,
  a reaction's emoji as the value of its \<open>toString()\<close>.
\<close>

record message =
  msg_id :: string
  channelId :: string
  guildId :: "string option"
  channel :: msg_channel
  createdTimestamp :: int
  editedTimestamp :: "int option"
  author :: "user option"
  content :: string
  msg_type :: int
  tts :: bool
  pinned :: bool
  flags :: "int option"
  reference :: "message_reference option"
  mentions :: message_mentions
  attachments :: "attachment list"
  embeds :: "json list"
  reactions :: "reaction list"

definition isThread :: "msg_channel \<Rightarrow> bool" where
  "isThread ch = (chan_type ch \<in> set [PublicThread, PrivateThread, AnnouncementThread])"

section \<open>Message serialization\<close>

definition author_json :: "user \<Rightarrow> json" where
  "author_json a =
     JObj [(''id'', JStr (user_id a)),
           (''username'', JStr (username a)),
           (''discriminator'', JStr (discriminator a)),
           (''globalName'', str_or_null (globalName a)),
           (''bot'', JBool (bot a))]"

definition reference_json :: "message_reference \<Rightarrow> json" where
  "reference_json r =
     JObj [(''message_id'', str_or_null (ref_messageId r)),
           (''channel_id'', str_or_null (ref_channelId r)),
           (''guild_id'', str_or_null (ref_guildId r))]"

definition mention_user_json :: "user \<Rightarrow> json" where
  "mention_user_json u =
     JObj [(''id'', JStr (user_id u)),
           (''username'', JStr (username u)),
           (''globalName'', str_or_null (globalName u)),
           (''bot'', JBool (bot u))]"

definition mentions_json :: "message_mentions \<Rightarrow> json" where
  "mentions_json m =
     JObj [(''users'', JArr (map mention_user_json (users m))),
           (''roles'', JArr (map (\<lambda>r. JStr (obj_id r)) (roles m))),
           (''channels'', JArr (map (\<lambda>c. JStr (obj_id c)) (channels m))),
           (''everyone'', JBool (everyone m))]"

definition attachment_json :: "attachment \<Rightarrow> json" where
  "attachment_json a =
     JObj [(''id'', JStr (att_id a)), (''url'', JStr (url a)), (''proxyURL'', JStr (proxyURL a)),
           (''name'', JStr (att_name a)), (''size'', JNum (att_size a)),
           (''contentType'', str_or_null (contentType a)),
           (''height'', num_or_null (height a)), (''width'', num_or_null (width a))]"

definition reaction_json :: "reaction \<Rightarrow> json" where
  "reaction_json r =
     JObj [(''emoji'', JStr (emoji r)), (''count'', JNum (rcount r)), (''me'', JBool (me r))]"

text \<open>\<open>msg.editedTimestamp ? new Date(msg.editedTimestamp).toISOString() : null\<close>: null
  and 0 are falsy.\<close>

definition edited_at_json :: "int option \<Rightarrow> error + json" where
  "edited_at_json e =
     (case e of
        None \<Rightarrow> Inr JNull
      | Some t \<Rightarrow>
          if t = 0 then Inr JNull
          else (case toISOString t of Inl err \<Rightarrow> Inl err | Inr s \<Rightarrow> Inr (JStr s)))"

text \<open>
  \<open>toRecord\<close>. The two calls of \<open>toISOString\<close> can raise; every other property is read
  off the message.
\<close>

definition toRecord :: "message \<Rightarrow> Config \<Rightarrow> error + json" where
  "toRecord msg cfg =
     (case toISOString (createdTimestamp msg) of
        Inl err \<Rightarrow> Inl err
      | Inr created \<Rightarrow>
         (case edited_at_json (editedTimestamp msg) of
            Inl err \<Rightarrow> Inl err
          | Inr edited \<Rightarrow>
             Inr (JObj
               [(''message_id'', JStr (msg_id msg)),
                (''channel_id'', JStr (channelId msg)),
                (''guild_id'', str_or_null (guildId msg)),
                (''thread_id'', if isThread (channel msg) then JStr (channelId msg) else JNull),
                (''created_at'', JStr created),
                (''edited_at'', edited),
                (''author'', case author msg of None \<Rightarrow> JNull | Some a \<Rightarrow> author_json a),
                (''content'', if redactContent cfg then JNull else JStr (content msg)),
                (''type'', JNum (msg_type msg)),
                (''tts'', JBool (tts msg)),
                (''pinned'', JBool (pinned msg)),
                (''flags'', num_or_null (flags msg)),
                (''reference'',
                   case reference msg of None \<Rightarrow> JNull | Some r \<Rightarrow> reference_json r),
                (''mentions'', mentions_json (mentions msg)),
                (''attachments'', JArr (map attachment_json (attachments msg))),
                (''embeds'', JArr (embeds msg)),
                (''reactions'', JArr (map reaction_json (reactions msg)))])))"

section \<open>Paths and the file system\<close>

text \<open>
  A path is kept in normal form: whether it is absolute, and its segments. \<open>join\<close> is
  the POSIX \<open>path.join\<close>: the non-empty arguments are joined with a slash and the
  result is normalised, which drops the empty and the \<open>.\<close> segments and resolves \<open>..\<close>.
\<close>

datatype path = Path bool "ustring list"

fun split_slash :: "ustring \<Rightarrow> ustring list" where
  "split_slash [] = [[]]"
| "split_slash (c # cs) =
     (if c = slash then [] # split_slash cs
      else (case split_slash cs of [] \<Rightarrow> [[c]] | s # ss \<Rightarrow> (c # s) # ss))"

definition norm_step :: "bool \<Rightarrow> ustring list \<Rightarrow> ustring \<Rightarrow> ustring list" where
  "norm_step allowAboveRoot res seg =
     (if seg = [] \<or> seg = [dot] then res
      else if seg = [dot, dot] then
        (if res \<noteq> [] \<and> last res \<noteq> [dot, dot] then butlast res
         else if allowAboveRoot then res @ [[dot, dot]] else res)
      else res @ [seg])"

definition normalize_path :: "ustring \<Rightarrow> path" where
  "normalize_path p =
     (let isAbsolute = (p \<noteq> [] \<and> hd p = slash)
      in Path isAbsolute (foldl (norm_step (\<not> isAbsolute)) [] (split_slash p)))"

definition joined_args :: "ustring list \<Rightarrow> ustring option" where
  "joined_args args =
     foldl (\<lambda>joined arg.
              if arg \<noteq> [] then (case joined of None \<Rightarrow> Some arg | Some j \<Rightarrow> Some (j @ [slash] @ arg))
              else joined)
       None args"

definition join :: "ustring list \<Rightarrow> path" where
  "join args = (case joined_args args of None \<Rightarrow> Path False [] | Some joined \<Rightarrow> normalize_path joined)"

fun dirname :: "path \<Rightarrow> path" where
  "dirname (Path a segs) = Path a (butlast segs)"

text \<open>
  What a file holds: a text that \<open>JSON.parse\<close> rejects, a text that it reads as a JSON
  value, or nothing that can be read at all. A text is identified with the value it is
  read as: writing \<open>JSON.stringify(v, null, 2)\<close> leaves a file that is read as \<open>v\<close>.
\<close>

datatype fcontent = Unreadable | Text_invalid string | Text_json json

text \<open>
  The state of the file system: the files, the directories, and a journal of the
  completed partition writes (the path and the new records of each), kept to state
  what a run has written. The file system itself never fails a \<open>mkdir\<close> or a write.
\<close>

record fsys =
  files :: "path \<rightharpoonup> fcontent"
  dirs :: "path set"
  written :: "(path \<times> json list) list"

text \<open>\<open>mkdir(d, { recursive: true })\<close>: the directory and its ancestors exist afterwards.\<close>

fun mkdir_recursive :: "path \<Rightarrow> fsys \<Rightarrow> fsys" where
  "mkdir_recursive (Path a segs) s =
     s\<lparr>dirs := dirs s \<union> set (map (\<lambda>n. Path a (take n segs)) [0..<Suc (length segs)])\<rparr>"

text \<open>\<open>try { existing = JSON.parse(await Bun.file(path).text()) } catch {}\<close>: a missing
  or unreadable file and a text that does not parse leave the initial \<open>[]\<close>.\<close>

definition read_existing :: "fsys \<Rightarrow> path \<Rightarrow> json" where
  "read_existing s p = (case files s p of Some (Text_json j) \<Rightarrow> j | _ \<Rightarrow> JArr [])"

text \<open>The spread \<open>...existing\<close>: an array gives its elements, a string its characters,
  and any other value is not iterable.\<close>

fun spread :: "json \<Rightarrow> error + json list" where
  "spread (JArr xs) = Inr xs"
| "spread (JStr s) = Inr (map (\<lambda>c. JStr [c]) s)"
| "spread _ = Inl TypeError"

definition writeJson :: "path \<Rightarrow> json list \<Rightarrow> fsys \<Rightarrow> error option \<times> fsys" where
  "writeJson p records s =
     (if records = [] then (None, s)
      else
        let s1 = mkdir_recursive (dirname p) s;
            existing = read_existing s1 p
        in (case spread existing of
              Inl err \<Rightarrow> (Some err, s1)
            | Inr ex \<Rightarrow>
                (None, s1\<lparr>files := (files s1)(p \<mapsto> Text_json (JArr (ex @ records))),
                          written := written s1 @ [(p, records)]\<rparr>)))"

section \<open>Writing a page\<close>

text \<open>\<open>Map.groupBy\<close>: the keys in the order of their first element, each group in the
  order of the input.\<close>

fun add_to_group :: "'k \<Rightarrow> 'a \<Rightarrow> ('k \<times> 'a list) list \<Rightarrow> ('k \<times> 'a list) list" where
  "add_to_group k x [] = [(k, [x])]"
| "add_to_group k x ((k', g) # gs) =
     (if k = k' then (k', g @ [x]) # gs else (k', g) # add_to_group k x gs)"

definition groupBy :: "'a list \<Rightarrow> ('a \<Rightarrow> 'k) \<Rightarrow> ('k \<times> 'a list) list" where
  "groupBy xs f = foldl (\<lambda>groups x. add_to_group (f x) x groups) [] xs"

text \<open>\<open>batch.map((m) => toRecord(m, cfg))\<close>: the first record that raises ends the map.\<close>

fun map_toRecord :: "message list \<Rightarrow> Config \<Rightarrow> error + json list" where
  "map_toRecord [] cfg = Inr []"
| "map_toRecord (m # ms) cfg =
     (case toRecord m cfg of
        Inl err \<Rightarrow> Inl err
      | Inr r \<Rightarrow> (case map_toRecord ms cfg of Inl err \<Rightarrow> Inl err | Inr rs \<Rightarrow> Inr (r # rs)))"

text \<open>The loop \<open>for (const [dt, batch] of byDate)\<close> of \<open>writeMessages\<close>.\<close>

fun write_batches ::
  "Config \<Rightarrow> ustring \<Rightarrow> (string \<times> message list) list \<Rightarrow> fsys \<Rightarrow> error option \<times> fsys" where
  "write_batches cfg sanitizedName [] s = (None, s)"
| "write_batches cfg sanitizedName ((dt, batch) # rest) s =
     (if batch = [] then write_batches cfg sanitizedName rest s
      else
        let p = join [outDir cfg, sanitizedName, units dt, units ''messages.json'']
        in (case map_toRecord batch cfg of
              Inl err \<Rightarrow> (Some err, s)
            | Inr records \<Rightarrow>
                (case writeJson p records s of
                   (Some err, s') \<Rightarrow> (Some err, s')
                 | (None, s') \<Rightarrow> write_batches cfg sanitizedName rest s')))"

text \<open>\<open>writeMessages\<close>. The sort of JavaScript arrays is stable, as \<open>sort_key\<close> is.\<close>

definition writeMessages ::
  "(ustring \<Rightarrow> ustring) \<Rightarrow> (int \<Rightarrow> int) \<Rightarrow> Config \<Rightarrow> message list \<Rightarrow> ustring \<Rightarrow> fsys
     \<Rightarrow> error option \<times> fsys" where
  "writeMessages toLowerCase tz cfg msgs channelName s =
     (if msgs = [] then (None, s)
      else
        let sorted_msgs = sort_key createdTimestamp msgs;
            byDate = groupBy sorted_msgs (\<lambda>m. localDate tz (createdTimestamp m));
            sanitizedName = sanitizeChannelName toLowerCase channelName
        in write_batches cfg sanitizedName byDate s)"

section \<open>Backfill\<close>

text \<open>
  The channel: its id, its name when it has one, and \<open>messages.fetch\<close>, which is given
  the limit and the cursor \<open>before\<close> and returns a page or raises.
\<close>

record text_channel =
  ch_id :: string
  ch_name :: "ustring option"
  messages_fetch :: "nat \<Rightarrow> string option \<Rightarrow> error + message list"

text \<open>\<open>msgs.reduce((a, b) => (a.createdTimestamp < b.createdTimestamp ? a : b))\<close>; on an
  empty array \<open>reduce\<close> without an initial value raises.\<close>

definition reduce_oldest :: "message list \<Rightarrow> error + message" where
  "reduce_oldest msgs =
     (case msgs of
        [] \<Rightarrow> Inl TypeError
      | m # ms \<Rightarrow> Inr (foldl (\<lambda>a b. if createdTimestamp a < createdTimestamp b then a else b) m ms))"

text \<open>
  The state of a run: the file system, the counter \<open>total\<close>, and the pages that the
  fetch calls have returned so far, in order.
\<close>

record run =
  fs :: fsys
  total :: nat
  pages :: "message list list"

text \<open>
  The loop \<open>while (true)\<close> of \<open>backfill\<close>, with fuel: \<open>None\<close> when the fuel runs out
  before the loop ends. An error ends the run and keeps what has been written.
\<close>

fun backfill_loop ::
  "nat \<Rightarrow> (ustring \<Rightarrow> ustring) \<Rightarrow> (int \<Rightarrow> int) \<Rightarrow> Config \<Rightarrow> text_channel \<Rightarrow> ustring
     \<Rightarrow> string option \<Rightarrow> run \<Rightarrow> (error option \<times> run) option" where
  "backfill_loop 0 toLowerCase tz cfg ch channelName before_id st = None"
| "backfill_loop (Suc n) toLowerCase tz cfg ch channelName before_id st =
     (case messages_fetch ch 100 before_id of
        Inl err \<Rightarrow> Some (Some err, st)
      | Inr batch \<Rightarrow>
          let st1 = st\<lparr>pages := pages st @ [batch]\<rparr>
          in if batch = [] then Some (None, st1)
             else
               let msgs = batch;
                   st2 = st1\<lparr>total := total st1 + length msgs\<rparr>;
                   inRange = filter (\<lambda>m. createdTimestamp m \<ge> cfg_start cfg
                                          \<and> createdTimestamp m < cfg_end cfg) msgs
               in (case writeMessages toLowerCase tz cfg inRange channelName (fs st2) of
                     (Some err, s') \<Rightarrow> Some (Some err, st2\<lparr>fs := s'\<rparr>)
                   | (None, s') \<Rightarrow>
                       (case reduce_oldest msgs of
                          Inl err \<Rightarrow> Some (Some err, st2\<lparr>fs := s'\<rparr>)
                        | Inr oldest \<Rightarrow>
                            if createdTimestamp oldest < cfg_start cfg
                            then Some (None, st2\<lparr>fs := s'\<rparr>)
                            else backfill_loop n toLowerCase tz cfg ch channelName (Some (msg_id oldest))
                                   (st2\<lparr>fs := s'\<rparr>))))"

text \<open>\<open>"name" in ch && ch.name ? ch.name : "dm"\<close>: the empty name is falsy.\<close>

definition channelName_of :: "text_channel \<Rightarrow> ustring" where
  "channelName_of ch =
     (case ch_name ch of None \<Rightarrow> units ''dm'' | Some n \<Rightarrow> if n \<noteq> [] then n else units ''dm'')"

definition backfill ::
  "nat \<Rightarrow> (ustring \<Rightarrow> ustring) \<Rightarrow> (int \<Rightarrow> int) \<Rightarrow> Config \<Rightarrow> text_channel \<Rightarrow> fsys
     \<Rightarrow> (error option \<times> run) option" where
  "backfill n toLowerCase tz cfg ch s =
     backfill_loop n toLowerCase tz cfg ch (channelName_of ch) None \<lparr>fs = s, total = 0, pages = []\<rparr>"

section \<open>A channel with a finite history\<close>

text \<open>
  The gateway is outside the program. For scenarios it is modelled by a channel that
  serves a finite history, given newest first: a fetch returns the newest messages whose
  id is below the cursor, at most \<open>limit\<close> of them. Ids are compared as numbers.
\<close>

definition digit_val :: "char \<Rightarrow> nat" where
  "digit_val c = (case map_of (zip ''0123456789'' [0, 1, 2, 3, 4, 5, 6, 7, 8, 9]) c of
        Some d \<Rightarrow> d
      | None \<Rightarrow> 0)"

definition snowflake :: "string \<Rightarrow> nat" where
  "snowflake s = foldl (\<lambda>n c. 10 * n + digit_val c) 0 s"

definition history_fetch :: "message list \<Rightarrow> nat \<Rightarrow> string option \<Rightarrow> error + message list" where
  "history_fetch hist limit before_id =
     Inr (take limit
            (filter (\<lambda>m. case before_id of None \<Rightarrow> True
                                      | Some b \<Rightarrow> snowflake (msg_id m) < snowflake b) hist))"

definition history_channel :: "string \<Rightarrow> ustring option \<Rightarrow> message list \<Rightarrow> text_channel" where
  "history_channel i n hist = \<lparr>ch_id = i, ch_name = n, messages_fetch = history_fetch hist\<rparr>"

text \<open>A message with the given id and creation time and nothing else of note.\<close>

definition plain_message :: "nat \<Rightarrow> int \<Rightarrow> message" where
  "plain_message i t =
     \<lparr>msg_id = string_of_nat i, channelId = ''7'', guildId = Some ''9'',
      channel = \<lparr>chan_type = GuildText\<rparr>, createdTimestamp = t, editedTimestamp = None,
      author = None, content = ''hello'', msg_type = 0, tts = False, pinned = False,
      flags = None, reference = None,
      mentions = \<lparr>users = [], roles = [], channels = [], everyone = False\<rparr>,
      attachments = [], embeds = [], reactions = []\<rparr>"

definition empty_fs :: fsys where
  "empty_fs = \<lparr>files = Map.empty, dirs = {}, written = []\<rparr>"

section \<open>Inputs of the examples\<close>

text \<open>
  A lower-case mapping for the examples: the part of the Unicode mapping that covers
  Basic Latin and Latin-1 (\<open>A\<close> to \<open>Z\<close> and U+00C0 to U+00DE without the multiplication sign
  U+00D7 move up by 32) and the capital I with a dot above, U+0130, which becomes the two
  code units U+0069 and U+0307. Every other code unit is kept.
\<close>

definition lower_unit :: "nat \<Rightarrow> ustring" where
  "lower_unit u =
     (if 0x41 \<le> u \<and> u \<le> 0x5A then [u + 0x20]
      else if 0xC0 \<le> u \<and> u \<le> 0xDE \<and> u \<noteq> 0xD7 then [u + 0x20]
      else if u = 0x130 then [0x69, 0x307]
      else [u])"

definition latin_lower :: "ustring \<Rightarrow> ustring" where
  "latin_lower s = concat (map lower_unit s)"

text \<open>
  The channel name \<open>.\<close>, U+00C0, U+00A0, \<open>LA\<close>, U+3000, \<open>CARTE\<close>, \<open>:\<close>, U+0130: a leading dot,
  two letters outside ASCII, two white spaces outside ASCII and a forbidden character.
\<close>

definition carte_name :: ustring where
  "carte_name =
     [0x2E, 0xC0, 0xA0, 0x4C, 0x41, 0x3000, 0x43, 0x41, 0x52, 0x54, 0x45, 0x3A, 0x130]"

text \<open>Its sanitized form: U+00E0, \<open>-la-carte-i\<close>, U+0307.\<close>

definition carte_sanitized :: ustring where
  "carte_sanitized =
     [0xE0, 0x2D, 0x6C, 0x61, 0x2D, 0x63, 0x61, 0x72, 0x74, 0x65, 0x2D, 0x69, 0x307]"

text \<open>A message in a public thread, from a named author, and a configuration that redacts.\<close>

definition thread_message :: message where
  "thread_message =
     \<lparr>msg_id = ''41'', channelId = ''7'', guildId = None,
      channel = \<lparr>chan_type = PublicThread\<rparr>, createdTimestamp = 0, editedTimestamp = Some 0,
      author = Some \<lparr>user_id = ''3'', username = ''ann'', discriminator = ''0'',
                      globalName = None, bot = False\<rparr>,
      content = ''hi'', msg_type = 0, tts = False, pinned = True,
      flags = Some 0, reference = None,
      mentions = \<lparr>users = [], roles = [], channels = [], everyone = False\<rparr>,
      attachments = [], embeds = [], reactions = []\<rparr>"

definition redacting_config :: Config where
  "redacting_config =
     \<lparr>token = ''t'', cfg_channel = ''7'', outDir = units ''./lake'', cfg_start = 0, cfg_end = 10,
      redactContent = True\<rparr>"

definition thread_record :: json where
  "thread_record =
     JObj [(''message_id'', JStr ''41''), (''channel_id'', JStr ''7''), (''guild_id'', JNull),
           (''thread_id'', JStr ''7''), (''created_at'', JStr ''1970-01-01T00:00:00.000Z''),
           (''edited_at'', JNull),
           (''author'', JObj [(''id'', JStr ''3''), (''username'', JStr ''ann''),
                              (''discriminator'', JStr ''0''), (''globalName'', JNull),
                              (''bot'', JBool False)]),
           (''content'', JNull), (''type'', JNum 0), (''tts'', JBool False),
           (''pinned'', JBool True), (''flags'', JNum 0), (''reference'', JNull),
           (''mentions'', JObj [(''users'', JArr []), (''roles'', JArr []),
                                (''channels'', JArr []), (''everyone'', JBool False)]),
           (''attachments'', JArr []), (''embeds'', JArr []), (''reactions'', JArr [])]"

definition authorless_message :: message where
  "authorless_message = thread_message\<lparr>author := None\<rparr>"

text \<open>A partition path, and file systems that hold one file there.\<close>

definition part_path :: path where
  "part_path = Path False (map units [''lake'', ''general'', ''1970-01-01'', ''messages.json''])"

definition fs_one_record :: fsys where
  "fs_one_record = empty_fs\<lparr>files := [part_path \<mapsto> Text_json (JArr [JNum 1])]\<rparr>"

definition fs_object_file :: fsys where
  "fs_object_file = empty_fs\<lparr>files := [part_path \<mapsto> Text_json (JObj [])]\<rparr>"

definition fs_string_file :: fsys where
  "fs_string_file = empty_fs\<lparr>files := [part_path \<mapsto> Text_json (JStr ''ab'')]\<rparr>"

text \<open>The time zone UTC, a window of the first two days of 1970, and a page of three
  messages, newest first: one of the second day and two of the first.\<close>

definition utc :: "int \<Rightarrow> int" where
  "utc t = 0"

definition window_config :: Config where
  "window_config =
     \<lparr>token = ''t'', cfg_channel = ''7'', outDir = units ''./lake'', cfg_start = 0,
      cfg_end = 172800000, redactContent = False\<rparr>"

definition page_abc :: "message list" where
  "page_abc = [plain_message 3 86400001, plain_message 2 2000, plain_message 1 1000]"

text \<open>A channel named General whose history is that page.\<close>

definition general_channel :: text_channel where
  "general_channel = history_channel ''7'' (Some (units ''General'')) page_abc"

text \<open>
  A history of 150 messages, newest first. Message \<open>i\<close> has the id \<open>i\<close> and is created
  \<open>i\<close> milliseconds after 23:59:59.924 of the first day of 1970, so that the messages 1
  to 75 are of the first day and the messages 76 to 150 of the second. The run is the
  traversal of a channel with this history, in UTC, with the window of the two days, on an
  empty file system, with fuel for three fetch calls.
\<close>

definition message150 :: "nat \<Rightarrow> message" where
  "message150 i = plain_message i (86399924 + int i)"

definition history150 :: "message list" where
  "history150 = map message150 (rev [1..<151])"

definition channel150 :: text_channel where
  "channel150 = history_channel ''7'' (Some (units ''General'')) history150"

definition run150 :: "(error option \<times> run) option" where
  "run150 = backfill 3 latin_lower utc window_config channel150 empty_fs"

definition day1_path :: path where
  "day1_path = Path False (map units [''lake'', ''general'', ''1970-01-01'', ''messages.json''])"

section \<open>Auxiliary notions\<close>

text \<open>
  What the sanitizer needs of the lower-case mapping. Lowering twice is lowering once;
  a string without a code unit of the two classes of the sanitizer is lowered to one
  without; and a lowered string starts with a dot only if the string does. These are
  assumptions on the runtime, which holds the table: the images of the mapping of
  Unicode are lower-case letters and combining marks, which it keeps, and it keeps
  every character that is not a letter.
\<close>

definition clean_unit :: "nat \<Rightarrow> bool" where
  "clean_unit u = (u \<notin> set forbidden_units \<and> \<not> is_space u)"

definition starts_with_dot :: "ustring \<Rightarrow> bool" where
  "starts_with_dot s = (s \<noteq> [] \<and> hd s = dot)"

definition lowercase_mapping :: "(ustring \<Rightarrow> ustring) \<Rightarrow> bool" where
  "lowercase_mapping f =
     ((\<forall>s. f (f s) = f s) \<and>
      (\<forall>s. list_all clean_unit s \<longrightarrow> list_all clean_unit (f s)) \<and>
      (\<forall>s. starts_with_dot (f s) \<longrightarrow> starts_with_dot s))"

text \<open>The keys of a list in the order of their first occurrence.\<close>

definition first_keys :: "'k list \<Rightarrow> 'k list" where
  "first_keys ks = rev (remdups (rev ks))"

text \<open>The test of the filter in \<open>backfill\<close>: the creation instant lies in the half-open
  window of the configuration.\<close>

definition in_window :: "Config \<Rightarrow> message \<Rightarrow> bool" where
  "in_window cfg m = (cfg_start cfg \<le> createdTimestamp m \<and> createdTimestamp m < cfg_end cfg)"

text \<open>A page ends the loop: it is empty, or its oldest message was created before the
  start of the window.\<close>

definition page_halts :: "Config \<Rightarrow> message list \<Rightarrow> bool" where
  "page_halts cfg page =
     (case reduce_oldest page of
        Inl err \<Rightarrow> True
      | Inr oldest \<Rightarrow> createdTimestamp oldest < cfg_start cfg)"

text \<open>
  A channel serves a history in strictly decreasing time: every page it returns is made
  of messages of the (finite) history, and the page returned for the cursor of a message
  of the history holds only messages created strictly before that message.
\<close>

definition serves_decreasing :: "text_channel \<Rightarrow> message list \<Rightarrow> bool" where
  "serves_decreasing ch hist =
     ((\<forall>b page. messages_fetch ch 100 b = Inr page \<longrightarrow> set page \<subseteq> set hist) \<and>
      (\<forall>m \<in> set hist. \<forall>page. messages_fetch ch 100 (Some (msg_id m)) = Inr page \<longrightarrow>
         (\<forall>m' \<in> set page. createdTimestamp m' < createdTimestamp m)))"

text \<open>A path segment that \<open>join\<close> keeps as it is: not empty, neither \<open>.\<close> nor
  \<open>..\<close>, and without a slash.\<close>

definition plain_segment :: "ustring \<Rightarrow> bool" where
  "plain_segment d = (d \<noteq> [] \<and> d \<noteq> [dot] \<and> d \<noteq> [dot, dot] \<and> slash \<notin> set d)"

text \<open>The characters of a local date.\<close>

definition safe_chars :: "char set" where
  "safe_chars = set ''-0123456789Na''"

text \<open>The path that \<open>writeMessages\<close> builds for a channel name and a date.\<close>

definition partition_path :: "(ustring \<Rightarrow> ustring) \<Rightarrow> Config \<Rightarrow> ustring \<Rightarrow> string \<Rightarrow> path" where
  "partition_path toLowerCase cfg channelName d =
     join [outDir cfg, sanitizeChannelName toLowerCase channelName, units d, units ''messages.json'']"

text \<open>
  The pages of a run are what the channel returns for the cursors of the loop: the first
  page for no cursor, each next page for the id of the oldest message of the page
  before it.
\<close>

fun fetched_from :: "text_channel \<Rightarrow> string option \<Rightarrow> message list list \<Rightarrow> bool" where
  "fetched_from ch b [] = True"
| "fetched_from ch b [p] = (messages_fetch ch 100 b = Inr p)"
| "fetched_from ch b (p # q # ps) =
     (messages_fetch ch 100 b = Inr p \<and>
      (case reduce_oldest p of
         Inl err \<Rightarrow> False
       | Inr oldest \<Rightarrow> fetched_from ch (Some (msg_id oldest)) (q # ps)))"

text \<open>The channel answers every fetch with a page.\<close>

definition never_raises :: "text_channel \<Rightarrow> bool" where
  "never_raises ch = (\<forall>b. \<exists>page. messages_fetch ch 100 b = Inr page)"

text \<open>The records of the JSON array that a file holds; none when it holds no array.\<close>

definition records_at :: "fsys \<Rightarrow> path \<Rightarrow> json list" where
  "records_at s p = (case files s p of Some (Text_json (JArr xs)) \<Rightarrow> xs | _ \<Rightarrow> [])"

text \<open>Every file of the file system holds a JSON array.\<close>

definition arrays_only :: "fsys \<Rightarrow> bool" where
  "arrays_only s = (\<forall>p f. files s p = Some f \<longrightarrow> (\<exists>xs. f = Text_json (JArr xs)))"

text \<open>The records of a list of messages, and that each of them can be mapped.\<close>

definition records_of :: "Config \<Rightarrow> message list \<Rightarrow> json list" where
  "records_of cfg ms = map (\<lambda>m. case toRecord m cfg of Inr r \<Rightarrow> r | Inl err \<Rightarrow> JNull) ms"

definition mappable :: "Config \<Rightarrow> message list \<Rightarrow> bool" where
  "mappable cfg ms = (\<forall>m \<in> set ms. \<exists>r. toRecord m cfg = Inr r)"

section \<open>Rules for evaluating the definitions\<close>

lemma string_of_nat_numeral:
  "string_of_nat (numeral k) =
     (if (numeral k :: nat) < 10 then [digit_char (numeral k)]
      else string_of_nat (numeral k div 10) @ [digit_char (numeral k mod 10)])"
  by (rule string_of_nat.simps)

lemma string_of_nat_0: "string_of_nat 0 = ''0''"
  by (subst string_of_nat.simps) (simp add: digit_char_def)

lemma string_of_nat_1: "string_of_nat (Suc 0) = ''1''"
  by (subst string_of_nat.simps) (simp add: digit_char_def)

lemmas date_eval = localDate_def valid_time_def getFullYear_def getMonth_def getDate_def
  civil_from_days_def msPerDay_def Let_def string_of_int_def padStart_def digit_char_def
  string_of_nat_numeral string_of_nat_0 string_of_nat_1 toISOString_def iso_year_def

lemmas path_eval = join_def joined_args_def normalize_path_def norm_step_def units_def
  dot_def slash_def

lemmas sanitize_eval = sanitizeChannelName_def latin_lower_def lower_unit_def
  strip_leading_dots_def replace_forbidden_def forbidden_units_def is_space_def space_units_def
  units_def dash_def dot_def slash_def

lemmas record_eval = toRecord_def edited_at_json_def str_or_null_def num_or_null_def
  mentions_json_def isThread_def

lemmas write_eval = writeMessages_def groupBy_def writeJson_def read_existing_def

lemmas channel_eval = backfill_def channelName_of_def history_channel_def history_fetch_def
  snowflake_def digit_val_def reduce_oldest_def

section \<open>Properties of the sanitizer\<close>

lemma set_replace_spaces: "set (replace_spaces s) \<subseteq> insert dash (set s)"
proof (induction s rule: replace_spaces.induct)
  case 1
  show ?case by simp
next
  case (2 c cs)
  show ?case
  proof (cases "is_space c")
    case True
    with 2 have "set (replace_spaces (dropWhile is_space cs)) \<subseteq> insert dash (set (dropWhile is_space cs))"
      by simp
    also have "\<dots> \<subseteq> insert dash (set cs)"
      using set_dropWhileD by fastforce
    finally show ?thesis using True by auto
  next
    case False
    with 2 show ?thesis by auto
  qed
qed

lemma dash_not_space: "\<not> is_space dash"
  by (simp add: is_space_def space_units_def dash_def)

lemma dash_not_forbidden: "dash \<notin> set forbidden_units"
  by (simp add: forbidden_units_def dash_def)

lemma replace_spaces_no_space: "c \<in> set (replace_spaces s) \<Longrightarrow> \<not> is_space c"
proof (induction s rule: replace_spaces.induct)
  case 1
  then show ?case by simp
next
  case (2 d ds)
  then show ?case
    by (cases "is_space d") (auto simp: dash_not_space)
qed

lemma replace_spaces_id: "\<forall>c \<in> set s. \<not> is_space c \<Longrightarrow> replace_spaces s = s"
  by (induction s) auto

lemma replace_forbidden_none: "c \<in> set (replace_forbidden s) \<Longrightarrow> c \<notin> set forbidden_units"
  using dash_not_forbidden by (auto simp: replace_forbidden_def)

lemma replace_forbidden_id: "\<forall>c \<in> set s. c \<notin> set forbidden_units \<Longrightarrow> replace_forbidden s = s"
  by (simp add: replace_forbidden_def map_idI)

lemma strip_leading_dots_id: "\<not> starts_with_dot s \<Longrightarrow> strip_leading_dots s = s"
  by (cases s) (auto simp: strip_leading_dots_def starts_with_dot_def)

lemma strip_leading_dots_hd: "\<not> starts_with_dot (strip_leading_dots s)"
  unfolding strip_leading_dots_def starts_with_dot_def
  using hd_dropWhile [of "\<lambda>c. c = dot" s] by blast

lemma set_strip_leading_dots: "set (strip_leading_dots s) \<subseteq> set s"
  unfolding strip_leading_dots_def using set_dropWhileD by fastforce

text \<open>Before the lower-case mapping the name is free of the two classes.\<close>

lemma stripped_clean:
  "list_all clean_unit (strip_leading_dots (replace_spaces (replace_forbidden s)))"
proof -
  have "clean_unit c"
    if c: "c \<in> set (strip_leading_dots (replace_spaces (replace_forbidden s)))" for c
  proof -
    from c have r: "c \<in> set (replace_spaces (replace_forbidden s))"
      using set_strip_leading_dots by blast
    then have "\<not> is_space c"
      by (rule replace_spaces_no_space)
    moreover from r have "c \<in> insert dash (set (replace_forbidden s))"
      using set_replace_spaces by blast
    then have "c \<notin> set forbidden_units"
      using dash_not_forbidden replace_forbidden_none by auto
    ultimately show ?thesis by (simp add: clean_unit_def)
  qed
  then show ?thesis by (simp add: list_all_iff)
qed

lemma sanitized_clean:
  assumes "lowercase_mapping f"
  shows "list_all clean_unit (sanitizeChannelName f s)"
  using assms stripped_clean [of s] by (simp add: lowercase_mapping_def sanitizeChannelName_def)

lemma sanitized_no_dot:
  assumes "lowercase_mapping f"
  shows "\<not> starts_with_dot (sanitizeChannelName f s)"
  using assms strip_leading_dots_hd [of "replace_spaces (replace_forbidden s)"]
  unfolding lowercase_mapping_def sanitizeChannelName_def by blast

text \<open>The lower-case mapping of the examples has the three properties.\<close>

lemma lower_unit_twice: "concat (map lower_unit (lower_unit u)) = lower_unit u"
  by (simp add: lower_unit_def)

lemma latin_lower_idem: "latin_lower (latin_lower s) = latin_lower s"
  by (induction s) (simp_all add: latin_lower_def lower_unit_twice)

lemma lower_unit_clean: "clean_unit u \<Longrightarrow> list_all clean_unit (lower_unit u)"
  by (auto simp: lower_unit_def clean_unit_def forbidden_units_def is_space_def space_units_def)

lemma latin_lower_clean: "list_all clean_unit s \<Longrightarrow> list_all clean_unit (latin_lower s)"
  by (induction s) (simp_all add: latin_lower_def lower_unit_clean)

lemma lower_unit_hd: "lower_unit u \<noteq> [] \<and> (hd (lower_unit u) = dot \<longrightarrow> u = dot)"
  by (auto simp: lower_unit_def dot_def)

lemma latin_lower_dot: "starts_with_dot (latin_lower s) \<Longrightarrow> starts_with_dot s"
proof (cases s)
  case Nil
  assume "starts_with_dot (latin_lower s)"
  with Nil show ?thesis by (simp add: latin_lower_def starts_with_dot_def)
next
  case (Cons u us)
  assume "starts_with_dot (latin_lower s)"
  with Cons have "hd (lower_unit u @ latin_lower us) = dot"
    by (simp add: latin_lower_def starts_with_dot_def)
  with lower_unit_hd [of u] have "u = dot" by simp
  with Cons show ?thesis by (simp add: starts_with_dot_def)
qed

lemma lowercase_mapping_latin_lower: "lowercase_mapping latin_lower"
  unfolding lowercase_mapping_def
  using latin_lower_idem latin_lower_clean latin_lower_dot by blast

lemma sanitize_carte_name: "sanitizeChannelName latin_lower carte_name = carte_sanitized"
  by (simp add: carte_name_def carte_sanitized_def sanitize_eval)

text \<open>
  Claim C9. The sanitizer is idempotent: a sanitized name is a fixed point, for every
  string of code units and every lower-case mapping with the three properties of
  \<open>lowercase_mapping\<close>. The sanitizer is defined by recursive functions whose
  termination is proved, so it returns a name for every input string.
\<close>

theorem sanitizeChannelName_idempotent:
  assumes "lowercase_mapping toLowerCase"
  shows "sanitizeChannelName toLowerCase (sanitizeChannelName toLowerCase s) =
           sanitizeChannelName toLowerCase s"
proof -
  let ?t = "sanitizeChannelName toLowerCase s"
  have clean: "list_all clean_unit ?t"
    using assms by (rule sanitized_clean)
  have 1: "replace_forbidden ?t = ?t"
    using clean by (intro replace_forbidden_id) (simp add: list_all_iff clean_unit_def)
  have 2: "replace_spaces ?t = ?t"
    using clean by (intro replace_spaces_id) (simp add: list_all_iff clean_unit_def)
  have 3: "strip_leading_dots ?t = ?t"
    using assms by (intro strip_leading_dots_id sanitized_no_dot)
  have 4: "toLowerCase ?t = ?t"
    using assms by (simp add: sanitizeChannelName_def lowercase_mapping_def)
  have "sanitizeChannelName toLowerCase ?t =
          toLowerCase (strip_leading_dots (replace_spaces (replace_forbidden ?t)))"
    by (simp only: sanitizeChannelName_def)
  then show ?thesis
    using 1 2 3 4 by simp
qed

theorem sanitizeChannelName_idempotent_witness:
  "lowercase_mapping latin_lower \<and>
   sanitizeChannelName latin_lower carte_name = carte_sanitized \<and>
   sanitizeChannelName latin_lower carte_sanitized = carte_sanitized"
  using sanitizeChannelName_idempotent [of latin_lower carte_name]
  by (simp add: lowercase_mapping_latin_lower sanitize_carte_name)
section \<open>Properties of the record mapper\<close>

lemma toRecord_thread_message: "toRecord thread_message redacting_config = Inr thread_record"
  by code_simp

lemma map_of_set_prop:
  "k \<noteq> c \<Longrightarrow> map_of (map (\<lambda>(k', v). if k' = c then (k', w) else (k', v)) kvs) k = map_of kvs k"
  by (induction kvs) auto

lemma toRecord_Inr:
  assumes "toRecord msg cfg = Inr r"
  obtains created edited where "toISOString (createdTimestamp msg) = Inr created"
    and "edited_at_json (editedTimestamp msg) = Inr edited"
proof (cases "toISOString (createdTimestamp msg)")
  case (Inl e)
  with assms show ?thesis by (simp add: toRecord_def)
next
  case c: (Inr created)
  show ?thesis
  proof (cases "edited_at_json (editedTimestamp msg)")
    case (Inl e)
    with assms c show ?thesis by (simp add: toRecord_def)
  next
    case (Inr edited)
    with c that show ?thesis by blast
  qed
qed

lemma toRecord_set_content:
  assumes "toISOString (createdTimestamp msg) = Inr created"
    and "edited_at_json (editedTimestamp msg) = Inr edited"
  shows "toRecord msg (cfg\<lparr>redactContent := b\<rparr>) =
         map_sum id
           (\<lambda>j. case j of
                  JObj kvs \<Rightarrow>
                    JObj (map (\<lambda>(k', v). if k' = ''content''
                                          then (k', if b then JNull else JStr (content msg))
                                          else (k', v)) kvs)
                | _ \<Rightarrow> j)
           (toRecord msg cfg)"
  using assms by (simp add: toRecord_def)

lemma toRecord_is_object:
  assumes "toRecord msg cfg = Inr r"
  shows "\<exists>kvs. r = JObj kvs"
  using assms by (auto simp: toRecord_def split: sum.splits)

lemma toRecord_redactContent_update:
  assumes "toRecord msg cfg = Inr r"
  shows "\<exists>r'. toRecord msg (cfg\<lparr>redactContent := b\<rparr>) = Inr r' \<and>
        (\<forall>k. k \<noteq> ''content'' \<longrightarrow> jfield k r' = jfield k r)"
proof -
  from assms obtain created edited where c: "toISOString (createdTimestamp msg) = Inr created"
    and e: "edited_at_json (editedTimestamp msg) = Inr edited"
    by (rule toRecord_Inr)
  from assms obtain kvs where r: "r = JObj kvs"
    using toRecord_is_object by blast
  let ?w = "if b then JNull else JStr (content msg)"
  let ?upd = "map (\<lambda>(k', v). if k' = ''content'' then (k', ?w) else (k', v))"
  have r': "toRecord msg (cfg\<lparr>redactContent := b\<rparr>) = Inr (JObj (?upd kvs))"
    using toRecord_set_content [OF c e, where cfg = cfg and b = b] assms r by simp
  have "\<forall>k. k \<noteq> ''content'' \<longrightarrow> jfield k (JObj (?upd kvs)) = jfield k r"
    using r by (simp add: map_of_set_prop)
  with r' show ?thesis by blast
qed

text \<open>
  Claim C2. In a record that the mapper produces, \<open>content\<close> is null exactly when the
  redaction flag of the configuration is set; and with the flag set to any other value the
  mapper produces a record too, which agrees with the first on every property other
  than \<open>content\<close>.
\<close>

theorem toRecord_redaction:
  assumes "toRecord msg cfg = Inr r"
  shows "(jfield ''content'' r = Some JNull \<longleftrightarrow> redactContent cfg) \<and>
         (\<forall>b. \<exists>r'. toRecord msg (cfg\<lparr>redactContent := b\<rparr>) = Inr r' \<and>
                 (\<forall>k. k \<noteq> ''content'' \<longrightarrow> jfield k r' = jfield k r))"
proof
  from assms have "jfield ''content'' r = Some (if redactContent cfg then JNull else JStr (content msg))"
    by (auto simp: toRecord_def split: sum.splits)
  then show "jfield ''content'' r = Some JNull \<longleftrightarrow> redactContent cfg"
    by simp
next
  from assms show "\<forall>b. \<exists>r'. toRecord msg (cfg\<lparr>redactContent := b\<rparr>) = Inr r' \<and>
                 (\<forall>k. k \<noteq> ''content'' \<longrightarrow> jfield k r' = jfield k r)"
    using toRecord_redactContent_update by blast
qed

theorem toRecord_redaction_witness:
  "toRecord thread_message redacting_config = Inr thread_record \<and>
   jfield ''content'' thread_record = Some JNull \<and> redactContent redacting_config"
proof -
  have h: "toRecord thread_message redacting_config = Inr thread_record"
    by (rule toRecord_thread_message)
  have "redactContent redacting_config"
    by (simp add: redacting_config_def)
  with toRecord_redaction [OF h] h show ?thesis by simp
qed

text \<open>
  Claim C8. In a mapped record, \<open>thread_id\<close> is the channel id of the message exactly
  when the type of its channel is one of the three thread types, and null otherwise.
\<close>

theorem toRecord_thread_id:
  assumes "toRecord msg cfg = Inr r"
  shows "(jfield ''thread_id'' r = Some (JStr (channelId msg))
            \<longleftrightarrow> chan_type (channel msg) \<in> {PublicThread, PrivateThread, AnnouncementThread}) \<and>
         (chan_type (channel msg) \<notin> {PublicThread, PrivateThread, AnnouncementThread}
            \<longrightarrow> jfield ''thread_id'' r = Some JNull)"
proof -
  from assms have "jfield ''thread_id'' r = Some (if isThread (channel msg) then JStr (channelId msg) else JNull)"
    by (auto simp: toRecord_def split: sum.splits)
  then show ?thesis
    by (auto simp: isThread_def)
qed

theorem toRecord_thread_id_witness:
  "toRecord thread_message redacting_config = Inr thread_record \<and>
   chan_type (channel thread_message) = PublicThread \<and>
   jfield ''thread_id'' thread_record = Some (JStr (channelId thread_message))"
proof -
  have h: "toRecord thread_message redacting_config = Inr thread_record"
    by (rule toRecord_thread_message)
  have t: "chan_type (channel thread_message) = PublicThread"
    by (simp add: thread_message_def)
  with toRecord_thread_id [OF h] h show ?thesis by simp
qed

text \<open>
  Claim C10. When the message has no author the \<open>author\<close> of the mapped record is null;
  when it has one, the record's \<open>author\<close> is an object that carries the author's id,
  username, discriminator, display name (null when absent) and bot flag unchanged.
\<close>

theorem toRecord_author:
  assumes "toRecord msg cfg = Inr r"
  shows "(author msg = None \<longrightarrow> jfield ''author'' r = Some JNull) \<and>
         (\<forall>a. author msg = Some a \<longrightarrow>
            (\<exists>obj. jfield ''author'' r = Some obj \<and>
               jfield ''id'' obj = Some (JStr (user_id a)) \<and>
               jfield ''username'' obj = Some (JStr (username a)) \<and>
               jfield ''discriminator'' obj = Some (JStr (discriminator a)) \<and>
               jfield ''globalName'' obj = Some (case globalName a of None \<Rightarrow> JNull | Some g \<Rightarrow> JStr g) \<and>
               jfield ''bot'' obj = Some (JBool (bot a))))"
proof -
  from assms have "jfield ''author'' r = Some (case author msg of None \<Rightarrow> JNull | Some a \<Rightarrow> author_json a)"
    by (auto simp: toRecord_def split: sum.splits)
  then show ?thesis
    by (auto simp: author_json_def str_or_null_def)
qed

theorem toRecord_author_witness:
  "(\<exists>r. toRecord authorless_message redacting_config = Inr r \<and> jfield ''author'' r = Some JNull) \<and>
   (\<exists>obj. jfield ''author'' thread_record = Some obj \<and> jfield ''username'' obj = Some (JStr ''ann''))"
proof -
  have h: "toRecord thread_message redacting_config = Inr thread_record"
    by (rule toRecord_thread_message)
  have a: "author thread_message = Some \<lparr>user_id = ''3'', username = ''ann'', discriminator = ''0'',
                      globalName = None, bot = False\<rparr>"
    by (simp add: thread_message_def)
  obtain r where h': "toRecord authorless_message redacting_config = Inr r"
    using h by (auto simp: toRecord_def authorless_message_def split: sum.splits)
  have n: "author authorless_message = None"
    by (simp add: authorless_message_def)
  from toRecord_author [OF h'] n h' have 1: "\<exists>r. toRecord authorless_message redacting_config = Inr r \<and> jfield ''author'' r = Some JNull"
    by blast
  from toRecord_author [OF h] a have 2: "\<exists>obj. jfield ''author'' thread_record = Some obj \<and> jfield ''username'' obj = Some (JStr ''ann'')"
    by fastforce
  from 1 2 show ?thesis by blast
qed

section \<open>Properties of the partition writer\<close>

lemma files_mkdir_recursive [simp]: "files (mkdir_recursive d s) = files s"
  by (cases d) simp

lemma written_mkdir_recursive [simp]: "written (mkdir_recursive d s) = written s"
  by (cases d) simp

lemma writeJson_empty: "writeJson p [] s = (None, s)"
  by (simp add: writeJson_def)

lemma writeJson_array:
  assumes "files s p = Some (Text_json (JArr existing))" and "records \<noteq> []"
  shows "writeJson p records s =
           (None, (mkdir_recursive (dirname p) s)
                    \<lparr>files := (files s)(p \<mapsto> Text_json (JArr (existing @ records))),
                     written := written s @ [(p, records)]\<rparr>)"
  using assms by (simp add: writeJson_def read_existing_def Let_def)

lemma writeJson_no_prior:
  assumes "files s p = None \<or> files s p = Some Unreadable \<or> files s p = Some (Text_invalid t)"
    and "records \<noteq> []"
  shows "writeJson p records s =
           (None, (mkdir_recursive (dirname p) s)
                    \<lparr>files := (files s)(p \<mapsto> Text_json (JArr records)),
                     written := written s @ [(p, records)]\<rparr>)"
  using assms by (auto simp: writeJson_def read_existing_def Let_def)

text \<open>
  Claim C3. When the file at the partition path parses to a list of records and the list
  of new records is not empty, the write succeeds and leaves at the path the existing
  records followed by the new ones, as many as the two lists hold together, and no other
  file changes. With an empty list of new records the write changes nothing: the state
  of the file system afterwards is the state before.
\<close>

theorem writeJson_merge:
  "(files s p = Some (Text_json (JArr existing)) \<and> records \<noteq> [] \<longrightarrow>
      (\<exists>s'. writeJson p records s = (None, s') \<and>
            files s' p = Some (Text_json (JArr (existing @ records))) \<and>
            length (existing @ records) = length existing + length records \<and>
            (\<forall>q. q \<noteq> p \<longrightarrow> files s' q = files s q))) \<and>
   writeJson p [] s = (None, s)"
  by (simp add: writeJson_array writeJson_empty)

theorem writeJson_merge_witness:
  "files fs_one_record part_path = Some (Text_json (JArr [JNum 1])) \<and>
   (\<exists>s'. writeJson part_path [JNum 2, JNum 3] fs_one_record = (None, s') \<and>
         files s' part_path = Some (Text_json (JArr [JNum 1, JNum 2, JNum 3])))"
proof -
  have h: "files fs_one_record part_path = Some (Text_json (JArr [JNum 1]))"
    by (simp add: fs_one_record_def)
  have n: "[JNum 2, JNum 3] \<noteq> []"
    by simp
  from writeJson_merge [of fs_one_record part_path "[JNum 1]" "[JNum 2, JNum 3]"] h n
  show ?thesis by auto
qed

text \<open>
  Claim C6 says that any prior content that is not a JSON array counts as an empty list.
  That holds for a missing file, an unreadable file and a text that does not parse
  (\<open>writeJson_no_prior\<close>). It fails for a text that parses to a value other than an
  array: the spread of \<open>existing\<close> stands outside the \<open>try\<close>. On a file that holds
  the object \<open>{}\<close> the write raises a TypeError and the file stays as it was, where on
  an empty file system the same write succeeds and leaves exactly the new record.
\<close>

theorem writeJson_object_file:
  "fst (writeJson part_path [JNum 2] fs_object_file) = Some TypeError \<and>
   files (snd (writeJson part_path [JNum 2] fs_object_file)) part_path = Some (Text_json (JObj [])) \<and>
   fst (writeJson part_path [JNum 2] empty_fs) = None \<and>
   files (snd (writeJson part_path [JNum 2] empty_fs)) part_path = Some (Text_json (JArr [JNum 2]))"
  by (simp add: writeJson_def read_existing_def fs_object_file_def empty_fs_def Let_def)

text \<open>On a file that holds a JSON string the characters of the string are merged
  in front of the new records.\<close>

lemma writeJson_string_file:
  "files (snd (writeJson part_path [JNum 2] fs_string_file)) part_path
     = Some (Text_json (JArr [JStr ''a'', JStr ''b'', JNum 2]))"
  by (simp add: writeJson_def read_existing_def fs_string_file_def empty_fs_def Let_def)

section \<open>Properties of the page writer\<close>

lemma add_to_group_map:
  "distinct ks \<Longrightarrow>
   add_to_group k x (map (\<lambda>k'. (k', G k')) ks) =
     (if k \<in> set ks then map (\<lambda>k'. (k', if k' = k then G k' @ [x] else G k')) ks
      else map (\<lambda>k'. (k', G k')) ks @ [(k, [x])])"
  by (induction ks) auto

lemma groupBy_snoc: "groupBy (xs @ [x]) f = add_to_group (f x) x (groupBy xs f)"
  by (simp add: groupBy_def)

lemma distinct_first_keys: "distinct (first_keys ks)"
  by (simp add: first_keys_def)

lemma set_first_keys: "set (first_keys ks) = set ks"
  by (simp add: first_keys_def)

lemma first_keys_snoc:
  "first_keys (ks @ [k]) = (if k \<in> set ks then first_keys ks else first_keys ks @ [k])"
  by (simp add: first_keys_def)

lemma groupBy_eq:
  "groupBy xs f = map (\<lambda>k. (k, filter (\<lambda>x. f x = k) xs)) (first_keys (map f xs))"
proof (induction xs rule: rev_induct)
  case Nil
  show ?case by (simp add: groupBy_def first_keys_def)
next
  case (snoc x xs)
  let ?K = "first_keys (map f xs)"
  have d: "distinct ?K" by (rule distinct_first_keys)
  have s: "set ?K = f ` set xs" by (simp add: set_first_keys)
  show ?case
  proof (cases "f x \<in> f ` set xs")
    case True
    then have "first_keys (map f (xs @ [x])) = ?K"
      by (simp add: first_keys_snoc)
    moreover have "add_to_group (f x) x (map (\<lambda>k. (k, filter (\<lambda>y. f y = k) xs)) ?K)
        = map (\<lambda>k. (k, if k = f x then filter (\<lambda>y. f y = k) xs @ [x] else filter (\<lambda>y. f y = k) xs)) ?K"
      using True s by (simp add: add_to_group_map [OF d])
    moreover have "(\<lambda>k. (k, if k = f x then filter (\<lambda>y. f y = k) xs @ [x] else filter (\<lambda>y. f y = k) xs))
        = (\<lambda>k. (k, filter (\<lambda>y. f y = k) (xs @ [x])))"
      by auto
    ultimately show ?thesis
      using snoc.IH by (simp add: groupBy_snoc)
  next
    case False
    then have k: "first_keys (map f (xs @ [x])) = ?K @ [f x]"
      by (simp add: first_keys_snoc)
    have a: "add_to_group (f x) x (map (\<lambda>k. (k, filter (\<lambda>y. f y = k) xs)) ?K)
        = map (\<lambda>k. (k, filter (\<lambda>y. f y = k) xs)) ?K @ [(f x, [x])]"
      using False s by (simp add: add_to_group_map [OF d])
    have b: "map (\<lambda>k. (k, filter (\<lambda>y. f y = k) xs)) ?K
        = map (\<lambda>k. (k, filter (\<lambda>y. f y = k) (xs @ [x]))) ?K"
    proof (intro map_cong refl)
      fix k assume "k \<in> set ?K"
      with s False have "f x \<noteq> k" by auto
      then show "(k, filter (\<lambda>y. f y = k) xs) = (k, filter (\<lambda>y. f y = k) (xs @ [x]))"
        by simp
    qed
    have c: "filter (\<lambda>y. f y = f x) xs = []"
      using False by (metis (mono_tags, lifting) filter_False imageI)
    show ?thesis
      using snoc.IH a b c k by (simp add: groupBy_snoc)
  qed
qed








lemma written_page_abc:
  "map (\<lambda>c. (fst c, length (snd c))) (written (snd (writeMessages latin_lower utc window_config page_abc (units ''General'') empty_fs)))
     = [(Path False (map units [''lake'', ''general'', ''1970-01-01'', ''messages.json'']), 2),
        (Path False (map units [''lake'', ''general'', ''1970-01-02'', ''messages.json'']), 1)]"
  by (simp add: page_abc_def plain_message_def window_config_def utc_def empty_fs_def
      write_eval date_eval path_eval sanitize_eval record_eval cong: let_weak_cong)

section \<open>Properties of the backfill loop\<close>

lemma foldl_oldest:
  "foldl (\<lambda>a b. if createdTimestamp a < createdTimestamp b then a else b) m ms \<in> set (m # ms) \<and>
   (\<forall>x \<in> set (m # ms).
      createdTimestamp (foldl (\<lambda>a b. if createdTimestamp a < createdTimestamp b then a else b) m ms)
        \<le> createdTimestamp x)"
proof (induction ms arbitrary: m)
  case Nil
  show ?case by simp
next
  case (Cons b ms)
  let ?m' = "if createdTimestamp m < createdTimestamp b then m else b"
  from Cons.IH [of ?m'] show ?case
    by (auto split: if_splits)
qed

lemma reduce_oldest_nonempty:
  assumes "page \<noteq> []"
  obtains oldest where "reduce_oldest page = Inr oldest" and "oldest \<in> set page"
    and "\<forall>m \<in> set page. createdTimestamp oldest \<le> createdTimestamp m"
proof -
  from assms obtain m ms where p: "page = m # ms" by (cases page) auto
  let ?o = "foldl (\<lambda>a b. if createdTimestamp a < createdTimestamp b then a else b) m ms"
  have "reduce_oldest page = Inr ?o" using p by (simp add: reduce_oldest_def)
  moreover from foldl_oldest [of m ms] p have "?o \<in> set page"
    and "\<forall>x \<in> set page. createdTimestamp ?o \<le> createdTimestamp x"
    by auto
  ultimately show ?thesis using that by blast
qed

lemma loop_fetch_error:
  "messages_fetch ch 100 b = Inl err \<Longrightarrow>
   backfill_loop (Suc n) toLowerCase tz cfg ch name b st = Some (Some err, st)"
  by simp

lemma loop_exhausted:
  "messages_fetch ch 100 b = Inr [] \<Longrightarrow>
   backfill_loop (Suc n) toLowerCase tz cfg ch name b st = Some (None, st\<lparr>pages := pages st @ [[]]\<rparr>)"
  by simp

lemma loop_write_error:
  "messages_fetch ch 100 b = Inr page \<Longrightarrow> page \<noteq> [] \<Longrightarrow>
   writeMessages toLowerCase tz cfg (filter (in_window cfg) page) name (fs st) = (Some err, s') \<Longrightarrow>
   backfill_loop (Suc n) toLowerCase tz cfg ch name b st =
     Some (Some err, st\<lparr>pages := pages st @ [page], total := total st + length page, fs := s'\<rparr>)"
  by (simp add: Let_def in_window_def [abs_def])

lemma loop_window_done:
  "messages_fetch ch 100 b = Inr page \<Longrightarrow> page \<noteq> [] \<Longrightarrow>
   writeMessages toLowerCase tz cfg (filter (in_window cfg) page) name (fs st) = (None, s') \<Longrightarrow>
   reduce_oldest page = Inr oldest \<Longrightarrow> createdTimestamp oldest < cfg_start cfg \<Longrightarrow>
   backfill_loop (Suc n) toLowerCase tz cfg ch name b st =
     Some (None, st\<lparr>pages := pages st @ [page], total := total st + length page, fs := s'\<rparr>)"
  by (simp add: Let_def in_window_def [abs_def])

lemma loop_continue:
  "messages_fetch ch 100 b = Inr page \<Longrightarrow> page \<noteq> [] \<Longrightarrow>
   writeMessages toLowerCase tz cfg (filter (in_window cfg) page) name (fs st) = (None, s') \<Longrightarrow>
   reduce_oldest page = Inr oldest \<Longrightarrow> \<not> createdTimestamp oldest < cfg_start cfg \<Longrightarrow>
   backfill_loop (Suc n) toLowerCase tz cfg ch name b st =
     backfill_loop n toLowerCase tz cfg ch name (Some (msg_id oldest))
       (st\<lparr>pages := pages st @ [page], total := total st + length page, fs := s'\<rparr>)"
  by (simp add: Let_def in_window_def [abs_def])

lemma backfill_loop_Suc_cases:
  assumes "backfill_loop (Suc n) toLowerCase tz cfg ch name b st = Some (e, st')"
  obtains
    (fetch_error) err where "messages_fetch ch 100 b = Inl err" "e = Some err" "st' = st"
  | (exhausted) "messages_fetch ch 100 b = Inr []" "e = None"
      "st' = st\<lparr>pages := pages st @ [[]]\<rparr>"
  | (write_error) page err s' where "messages_fetch ch 100 b = Inr page" "page \<noteq> []"
      "writeMessages toLowerCase tz cfg (filter (in_window cfg) page) name (fs st) = (Some err, s')"
      "e = Some err"
      "st' = st\<lparr>pages := pages st @ [page], total := total st + length page, fs := s'\<rparr>"
  | (window_done) page s' oldest where "messages_fetch ch 100 b = Inr page" "page \<noteq> []"
      "writeMessages toLowerCase tz cfg (filter (in_window cfg) page) name (fs st) = (None, s')"
      "reduce_oldest page = Inr oldest" "createdTimestamp oldest < cfg_start cfg"
      "e = None"
      "st' = st\<lparr>pages := pages st @ [page], total := total st + length page, fs := s'\<rparr>"
  | (continue) page s' oldest where "messages_fetch ch 100 b = Inr page" "page \<noteq> []"
      "writeMessages toLowerCase tz cfg (filter (in_window cfg) page) name (fs st) = (None, s')"
      "reduce_oldest page = Inr oldest" "\<not> createdTimestamp oldest < cfg_start cfg"
      "backfill_loop n toLowerCase tz cfg ch name (Some (msg_id oldest))
         (st\<lparr>pages := pages st @ [page], total := total st + length page, fs := s'\<rparr>)
       = Some (e, st')"
proof (cases "messages_fetch ch 100 b")
  case (Inl err)
  from assms [unfolded loop_fetch_error [OF Inl]] have "e = Some err" "st' = st" by simp_all
  with Inl show ?thesis by (rule fetch_error)
next
  case (Inr page)
  show ?thesis
  proof (cases "page = []")
    case True
    with Inr have f: "messages_fetch ch 100 b = Inr []" by simp
    from assms [unfolded loop_exhausted [OF f]]
    have "e = None" "st' = st\<lparr>pages := pages st @ [[]]\<rparr>" by simp_all
    with f show ?thesis by (rule exhausted)
  next
    case False
    obtain ew s' where wm: "writeMessages toLowerCase tz cfg (filter (in_window cfg) page) name (fs st) = (ew, s')"
      by (cases "writeMessages toLowerCase tz cfg (filter (in_window cfg) page) name (fs st)")
    from False obtain oldest where o: "reduce_oldest page = Inr oldest"
      by (rule reduce_oldest_nonempty)
    show ?thesis
    proof (cases ew)
      case (Some err)
      with wm have wm': "writeMessages toLowerCase tz cfg (filter (in_window cfg) page) name (fs st) = (Some err, s')"
        by simp
      from assms [unfolded loop_write_error [OF Inr False wm']]
      have "e = Some err"
        "st' = st\<lparr>pages := pages st @ [page], total := total st + length page, fs := s'\<rparr>"
        by simp_all
      with Inr False wm' show ?thesis by (rule write_error)
    next
      case None
      with wm have wm': "writeMessages toLowerCase tz cfg (filter (in_window cfg) page) name (fs st) = (None, s')"
        by simp
      show ?thesis
      proof (cases "createdTimestamp oldest < cfg_start cfg")
        case True
        from assms [unfolded loop_window_done [OF Inr False wm' o True]]
        have "e = None"
          "st' = st\<lparr>pages := pages st @ [page], total := total st + length page, fs := s'\<rparr>"
          by simp_all
        with Inr False wm' o True show ?thesis by (rule window_done)
      next
        case f: False
        from assms [unfolded loop_continue [OF Inr False wm' o f]]
        show ?thesis using Inr False wm' o f by (intro continue)
      qed
    qed
  qed
qed


lemma map_toRecord_set:
  "map_toRecord ms cfg = Inr rs \<Longrightarrow> r \<in> set rs \<Longrightarrow> \<exists>m \<in> set ms. toRecord m cfg = Inr r"
  by (induction ms arbitrary: rs) (auto split: sum.splits)

lemma writeJson_written_any:
  assumes "writeJson p records s = (e, s')"
  shows "written s' = written s \<or> written s' = written s @ [(p, records)]"
  using assms by (auto simp: writeJson_def Let_def split: sum.splits if_splits)

lemma write_batches_records:
  assumes "write_batches cfg name groups s = (e, s')"
  shows "\<exists>new. written s' = written s @ new \<and>
           (\<forall>c \<in> set new. \<forall>r \<in> set (snd c). \<exists>g \<in> set groups. \<exists>m \<in> set (snd g). toRecord m cfg = Inr r)"
  using assms
proof (induction groups arbitrary: s)
  case Nil
  then show ?case by simp
next
  case (Cons g groups)
  obtain dt batch where g: "g = (dt, batch)" by (cases g)
  let ?p = "join [outDir cfg, name, units dt, units ''messages.json'']"
  show ?case
  proof (cases "batch = []")
    case True
    with Cons.prems g have "write_batches cfg name groups s = (e, s')" by simp
    from Cons.IH [OF this] show ?thesis by auto
  next
    case ne: False
    show ?thesis
    proof (cases "map_toRecord batch cfg")
      case (Inl err)
      with Cons.prems g ne have "s' = s" by (simp add: Let_def)
      then show ?thesis by simp
    next
      case (Inr records)
      obtain ew s1 where w: "writeJson ?p records s = (ew, s1)"
        by (cases "writeJson ?p records s")
      have rec: "\<forall>r \<in> set records. \<exists>m \<in> set batch. toRecord m cfg = Inr r"
        using map_toRecord_set [OF Inr] by blast
      from writeJson_written_any [OF w] obtain new1 where
        n1: "written s1 = written s @ new1" and
        r1: "\<forall>c \<in> set new1. \<forall>r \<in> set (snd c). \<exists>m \<in> set batch. toRecord m cfg = Inr r"
      proof
        assume "written s1 = written s"
        then show ?thesis using that [of "[]"] by simp
      next
        assume "written s1 = written s @ [(?p, records)]"
        then show ?thesis using that [of "[(?p, records)]"] rec by simp
      qed
      show ?thesis
      proof (cases ew)
        case (Some err)
        with Cons.prems g ne Inr w have "s' = s1" by (simp add: Let_def)
        with n1 r1 g show ?thesis by fastforce
      next
        case None
        with Cons.prems g ne Inr w have "write_batches cfg name groups s1 = (e, s')"
          by (simp add: Let_def)
        from Cons.IH [OF this] obtain new2 where
          n2: "written s' = written s1 @ new2" and
          r2: "\<forall>c \<in> set new2. \<forall>r \<in> set (snd c). \<exists>g \<in> set groups. \<exists>m \<in> set (snd g). toRecord m cfg = Inr r"
          by blast
        from n1 n2 have "written s' = written s @ (new1 @ new2)" by simp
        moreover from r1 r2 g have "\<forall>c \<in> set (new1 @ new2). \<forall>r \<in> set (snd c).
            \<exists>g' \<in> set (g # groups). \<exists>m \<in> set (snd g'). toRecord m cfg = Inr r"
          by fastforce
        ultimately show ?thesis by blast
      qed
    qed
  qed
qed

lemma writeMessages_records:
  assumes "writeMessages toLowerCase tz cfg msgs name s = (e, s')"
  shows "\<exists>new. written s' = written s @ new \<and>
           (\<forall>c \<in> set new. \<forall>r \<in> set (snd c). \<exists>m \<in> set msgs. toRecord m cfg = Inr r)"
proof (cases "msgs = []")
  case True
  with assms have "s' = s" by (simp add: writeMessages_def)
  then show ?thesis by simp
next
  case False
  let ?f = "\<lambda>m. localDate tz (createdTimestamp m)"
  let ?sorted = "sort_key createdTimestamp msgs"
  let ?groups = "map (\<lambda>k. (k, filter (\<lambda>m. ?f m = k) ?sorted)) (first_keys (map ?f ?sorted))"
  from assms False have "write_batches cfg (sanitizeChannelName toLowerCase name) ?groups s = (e, s')"
    by (simp add: writeMessages_def Let_def groupBy_eq)
  from write_batches_records [OF this] obtain new where
    n: "written s' = written s @ new" and
    r: "\<forall>c \<in> set new. \<forall>r \<in> set (snd c). \<exists>g \<in> set ?groups. \<exists>m \<in> set (snd g). toRecord m cfg = Inr r"
    by blast
  have "\<forall>g \<in> set ?groups. set (snd g) \<subseteq> set msgs"
    by auto
  with r have "\<forall>c \<in> set new. \<forall>r \<in> set (snd c). \<exists>m \<in> set msgs. toRecord m cfg = Inr r"
    by (meson subsetD)
  with n show ?thesis by blast
qed

lemma backfill_loop_window:
  assumes "backfill_loop n toLowerCase tz cfg ch name b st = Some (e, st')"
  shows "\<exists>new ps. written (fs st') = written (fs st) @ new \<and> pages st' = pages st @ ps \<and>
           (\<forall>c \<in> set new. \<forall>r \<in> set (snd c).
              \<exists>m \<in> set (concat ps). in_window cfg m \<and> toRecord m cfg = Inr r)"
  using assms
proof (induction n arbitrary: b st)
  case 0
  then show ?case by simp
next
  case (Suc n)
  from Suc.prems show ?case
  proof (cases rule: backfill_loop_Suc_cases)
    case (fetch_error err)
    then show ?thesis by simp
  next
    case exhausted
    then show ?thesis by simp
  next
    case (write_error page err s')
    from writeMessages_records [OF write_error(3)] obtain new where
      "written s' = written (fs st) @ new" and
      "\<forall>c \<in> set new. \<forall>r \<in> set (snd c). \<exists>m \<in> set (filter (in_window cfg) page). toRecord m cfg = Inr r"
      by blast
    with write_error(5) show ?thesis
      by (intro exI [of _ new] exI [of _ "[page]"]) auto
  next
    case (window_done page s' oldest)
    from writeMessages_records [OF window_done(3)] obtain new where
      "written s' = written (fs st) @ new" and
      "\<forall>c \<in> set new. \<forall>r \<in> set (snd c). \<exists>m \<in> set (filter (in_window cfg) page). toRecord m cfg = Inr r"
      by blast
    with window_done(7) show ?thesis
      by (intro exI [of _ new] exI [of _ "[page]"]) auto
  next
    case (continue page s' oldest)
    let ?st2 = "st\<lparr>pages := pages st @ [page], total := total st + length page, fs := s'\<rparr>"
    from writeMessages_records [OF continue(3)] obtain new1 where
      n1: "written s' = written (fs st) @ new1" and
      r1: "\<forall>c \<in> set new1. \<forall>r \<in> set (snd c). \<exists>m \<in> set (filter (in_window cfg) page). toRecord m cfg = Inr r"
      by blast
    from Suc.IH [OF continue(6)] obtain new2 ps where
      n2: "written (fs st') = written (fs ?st2) @ new2" and
      p2: "pages st' = pages ?st2 @ ps" and
      r2: "\<forall>c \<in> set new2. \<forall>r \<in> set (snd c).
              \<exists>m \<in> set (concat ps). in_window cfg m \<and> toRecord m cfg = Inr r"
      by blast
    from n1 n2 have "written (fs st') = written (fs st) @ (new1 @ new2)" by simp
    moreover from p2 have "pages st' = pages st @ (page # ps)" by simp
    moreover from r1 r2 have "\<forall>c \<in> set (new1 @ new2). \<forall>r \<in> set (snd c).
              \<exists>m \<in> set (concat (page # ps)). in_window cfg m \<and> toRecord m cfg = Inr r"
      by fastforce
    ultimately show ?thesis by blast
  qed
qed

text \<open>
  Claim C1. Whatever a run of the traversal returns, with or without an error, every
  record of every partition write it has made is the record of a message of a fetched
  page whose creation instant \<open>t\<close> satisfies \<open>start \<le> t < end\<close>.
\<close>

theorem backfill_window:
  assumes "backfill n toLowerCase tz cfg ch s = Some (e, st)"
  shows "\<exists>new. written (fs st) = written s @ new \<and>
           (\<forall>c \<in> set new. \<forall>r \<in> set (snd c).
              \<exists>m \<in> set (concat (pages st)).
                 cfg_start cfg \<le> createdTimestamp m \<and> createdTimestamp m < cfg_end cfg \<and>
                 toRecord m cfg = Inr r)"
proof -
  from assms have "backfill_loop n toLowerCase tz cfg ch (channelName_of ch) None \<lparr>fs = s, total = 0, pages = []\<rparr>
      = Some (e, st)"
    by (simp add: backfill_def)
  from backfill_loop_window [OF this] show ?thesis
    by (simp add: in_window_def)
qed

lemma history_serves_decreasing:
  assumes "\<forall>m \<in> set hist. \<forall>m' \<in> set hist.
             snowflake (msg_id m') < snowflake (msg_id m) \<longrightarrow> createdTimestamp m' < createdTimestamp m"
  shows "serves_decreasing (history_channel i n hist) hist"
  unfolding serves_decreasing_def history_channel_def history_fetch_def
  using assms by (auto dest!: in_set_takeD)

lemma general_channel_decreasing: "serves_decreasing general_channel page_abc"
  unfolding general_channel_def
  by (rule history_serves_decreasing)
     (simp add: page_abc_def plain_message_def snowflake_def digit_val_def
        string_of_nat_numeral string_of_nat_1 digit_char_def)

lemma backfill_general_channel:
  "backfill (Suc (Suc 0)) latin_lower utc window_config general_channel empty_fs \<noteq> None"
  by (simp add: general_channel_def page_abc_def plain_message_def window_config_def utc_def
      empty_fs_def channel_eval write_eval date_eval path_eval sanitize_eval record_eval
      cong: let_weak_cong)

theorem backfill_window_witness:
  "\<exists>e st. backfill (Suc (Suc 0)) latin_lower utc window_config general_channel empty_fs = Some (e, st) \<and>
     (\<exists>new. written (fs st) = written empty_fs @ new \<and>
        (\<forall>c \<in> set new. \<forall>r \<in> set (snd c).
           \<exists>m \<in> set (concat (pages st)).
              cfg_start window_config \<le> createdTimestamp m \<and>
              createdTimestamp m < cfg_end window_config \<and>
              toRecord m window_config = Inr r))"
proof -
  from backfill_general_channel obtain e st where
    h: "backfill (Suc (Suc 0)) latin_lower utc window_config general_channel empty_fs = Some (e, st)"
    by fastforce
  from backfill_window [OF h] h show ?thesis by blast
qed

lemma page_halts_Nil: "page_halts cfg []"
  by (simp add: page_halts_def reduce_oldest_def)

lemma loop_step_terminates:
  assumes "\<And>page s' oldest.
      messages_fetch ch 100 b = Inr page \<Longrightarrow> oldest \<in> set page \<Longrightarrow>
      \<not> createdTimestamp oldest < cfg_start cfg \<Longrightarrow>
      \<exists>n r. backfill_loop n toLowerCase tz cfg ch name (Some (msg_id oldest))
               (st\<lparr>pages := pages st @ [page], total := total st + length page, fs := s'\<rparr>) = Some r"
  shows "\<exists>n r. backfill_loop n toLowerCase tz cfg ch name b st = Some r"
proof (cases "messages_fetch ch 100 b")
  case (Inl err)
  from loop_fetch_error [OF this] show ?thesis by blast
next
  case (Inr page)
  show ?thesis
  proof (cases "page = []")
    case True
    with Inr have "messages_fetch ch 100 b = Inr []" by simp
    from loop_exhausted [OF this] show ?thesis by blast
  next
    case False
    obtain ew s' where wm: "writeMessages toLowerCase tz cfg (filter (in_window cfg) page) name (fs st) = (ew, s')"
      by (cases "writeMessages toLowerCase tz cfg (filter (in_window cfg) page) name (fs st)")
    from False obtain oldest where o: "reduce_oldest page = Inr oldest" and m: "oldest \<in> set page"
      by (rule reduce_oldest_nonempty)
    show ?thesis
    proof (cases ew)
      case (Some err)
      with wm have "writeMessages toLowerCase tz cfg (filter (in_window cfg) page) name (fs st) = (Some err, s')"
        by simp
      from loop_write_error [OF Inr False this] show ?thesis by blast
    next
      case None
      with wm have wm': "writeMessages toLowerCase tz cfg (filter (in_window cfg) page) name (fs st) = (None, s')"
        by simp
      show ?thesis
      proof (cases "createdTimestamp oldest < cfg_start cfg")
        case True
        from loop_window_done [OF Inr False wm' o True] show ?thesis by blast
      next
        case f: False
        from assms [OF Inr m f] obtain n r where
          "backfill_loop n toLowerCase tz cfg ch name (Some (msg_id oldest))
               (st\<lparr>pages := pages st @ [page], total := total st + length page, fs := s'\<rparr>) = Some r"
          by blast
        with loop_continue [OF Inr False wm' o f, of n] show ?thesis by metis
      qed
    qed
  qed
qed

lemma backfill_loop_terminates_from:
  assumes "serves_decreasing ch hist" and "m \<in> set hist"
    and "createdTimestamp m - cfg_start cfg < int k"
  shows "\<exists>n r. backfill_loop n toLowerCase tz cfg ch name (Some (msg_id m)) st = Some r"
  using assms(2,3)
proof (induction k arbitrary: m st)
  case 0
  show ?case
  proof (rule loop_step_terminates)
    fix page s' oldest
    assume "messages_fetch ch 100 (Some (msg_id m)) = Inr page" and "oldest \<in> set page"
      and n: "\<not> createdTimestamp oldest < cfg_start cfg"
    with assms(1) "0.prems"(1) have "createdTimestamp oldest < createdTimestamp m"
      by (auto simp: serves_decreasing_def)
    with "0.prems"(2) n have False by simp
    then show "\<exists>n r. backfill_loop n toLowerCase tz cfg ch name (Some (msg_id oldest))
               (st\<lparr>pages := pages st @ [page], total := total st + length page, fs := s'\<rparr>) = Some r"
      by simp
  qed
next
  case (Suc k)
  show ?case
  proof (rule loop_step_terminates)
    fix page s' oldest
    assume f: "messages_fetch ch 100 (Some (msg_id m)) = Inr page" and o: "oldest \<in> set page"
    with assms(1) Suc.prems(1) have "createdTimestamp oldest < createdTimestamp m"
      by (auto simp: serves_decreasing_def)
    with Suc.prems(2) have "createdTimestamp oldest - cfg_start cfg < int k" by simp
    moreover from assms(1) f o have "oldest \<in> set hist"
      by (auto simp: serves_decreasing_def)
    ultimately show "\<exists>n r. backfill_loop n toLowerCase tz cfg ch name (Some (msg_id oldest))
               (st\<lparr>pages := pages st @ [page], total := total st + length page, fs := s'\<rparr>) = Some r"
      by (rule Suc.IH [rotated])
  qed
qed

lemma backfill_loop_terminates:
  assumes "serves_decreasing ch hist"
  shows "\<exists>n r. backfill_loop n toLowerCase tz cfg ch name None st = Some r"
proof (rule loop_step_terminates)
  fix page s' oldest
  assume f: "messages_fetch ch 100 None = Inr page" and o: "oldest \<in> set page"
  with assms have h: "oldest \<in> set hist"
    by (auto simp: serves_decreasing_def)
  have "createdTimestamp oldest - cfg_start cfg
          < int (Suc (nat (createdTimestamp oldest - cfg_start cfg)))"
    by simp
  with assms h show "\<exists>n r. backfill_loop n toLowerCase tz cfg ch name (Some (msg_id oldest))
               (st\<lparr>pages := pages st @ [page], total := total st + length page, fs := s'\<rparr>) = Some r"
    by (rule backfill_loop_terminates_from)
qed

text \<open>More fuel does not change the result of a run.\<close>

lemma backfill_loop_more_fuel:
  "backfill_loop n toLowerCase tz cfg ch name b st = Some r \<Longrightarrow> backfill_loop (n + k) toLowerCase tz cfg ch name b st = Some r"
proof (induction n arbitrary: b st)
  case 0
  then show ?case by simp
next
  case (Suc n)
  obtain e st' where r: "r = (e, st')" by (cases r)
  from Suc.prems [unfolded r] show ?case
  proof (cases rule: backfill_loop_Suc_cases)
    case (fetch_error err)
    with r loop_fetch_error [OF fetch_error(1), of "n + k"] show ?thesis by simp
  next
    case exhausted
    with r loop_exhausted [OF exhausted(1), of "n + k"] show ?thesis by simp
  next
    case (write_error page err s')
    with r loop_write_error [OF write_error(1,2,3), of "n + k"] show ?thesis by simp
  next
    case (window_done page s' oldest)
    with r loop_window_done [OF window_done(1,2,3,4,5), of "n + k"] show ?thesis by simp
  next
    case (continue page s' oldest)
    from Suc.IH [OF continue(6) [folded r]] loop_continue [OF continue(1,2,3,4,5), of "n + k"]
    show ?thesis by simp
  qed
qed

section \<open>Partition paths are distinct for distinct dates\<close>

lemma split_slash_nonempty: "split_slash s \<noteq> []"
  by (induction s) (auto split: list.splits)

lemma split_slash_plain: "slash \<notin> set d \<Longrightarrow> split_slash d = [d]"
  by (induction d) auto

lemma split_slash_append:
  "split_slash (a @ slash # b) = split_slash a @ split_slash b"
proof (induction a)
  case Nil
  show ?case by simp
next
  case (Cons c a)
  then show ?case
    using split_slash_nonempty [of a] by (cases "split_slash a") auto
qed

lemma norm_step_plain: "plain_segment d \<Longrightarrow> norm_step allow res d = res @ [d]"
  by (simp add: norm_step_def plain_segment_def)

lemma normalize_append_plain:
  assumes "plain_segment d" and "plain_segment f" and "x \<noteq> []"
  shows "normalize_path (x @ [slash] @ d @ [slash] @ f) =
           (case normalize_path x of Path a segs \<Rightarrow> Path a (segs @ [d, f]))"
proof -
  from assms have d: "split_slash d = [d]" and f: "split_slash f = [f]"
    by (simp_all add: plain_segment_def split_slash_plain)
  have "split_slash (x @ [slash] @ d @ [slash] @ f) = split_slash x @ [d, f]"
    using split_slash_append [of x "d @ [slash] @ f"] split_slash_append [of d f] d f by simp
  moreover from assms(3) have "hd (x @ [slash] @ d @ [slash] @ f) = hd x" by simp
  ultimately show ?thesis
    using assms by (simp add: normalize_path_def Let_def norm_step_plain)
qed

lemma normalize_two_plain:
  assumes "plain_segment d" and "plain_segment f"
  shows "normalize_path (d @ [slash] @ f) = Path False [d, f]"
proof -
  from assms have d: "split_slash d = [d]" and f: "split_slash f = [f]"
    by (simp_all add: plain_segment_def split_slash_plain)
  have s: "split_slash (d @ [slash] @ f) = [d, f]"
    using split_slash_append [of d f] d f by simp
  from assms(1) have "hd (d @ [slash] @ f) \<noteq> slash"
    by (cases d) (auto simp: plain_segment_def)
  with s assms show ?thesis
    by (simp add: normalize_path_def Let_def norm_step_plain)
qed

lemma joined_args_nonempty: "joined_args [a, b] = Some x \<Longrightarrow> x \<noteq> []"
  by (auto simp: joined_args_def split: if_splits)

lemma join_plain:
  assumes "plain_segment d" and "plain_segment f"
  shows "join [a, b, d, f] = (case join [a, b] of Path ab segs \<Rightarrow> Path ab (segs @ [d, f]))"
proof (cases "joined_args [a, b]")
  case None
  from assms have ne: "d \<noteq> []" "f \<noteq> []" by (simp_all add: plain_segment_def)
  from None have "joined_args [a, b, d, f] = Some (d @ [slash] @ f)"
    using ne by (auto simp: joined_args_def split: if_splits)
  with None normalize_two_plain [OF assms] show ?thesis
    by (simp add: join_def)
next
  case (Some x)
  from assms have ne: "d \<noteq> []" "f \<noteq> []" by (simp_all add: plain_segment_def)
  from Some have "joined_args [a, b, d, f] = Some (x @ [slash] @ d @ [slash] @ f)"
    using ne by (auto simp: joined_args_def split: if_splits)
  with Some normalize_append_plain [OF assms joined_args_nonempty [OF Some]] show ?thesis
    by (simp add: join_def)
qed

lemma plain_messages_json: "plain_segment (units ''messages.json'')"
  by (simp add: plain_segment_def units_def dot_def slash_def)

lemma units_inj: "units d = units d' \<Longrightarrow> d = d'"
  unfolding units_def using inj_of_char by (simp add: inj_on_def list.inj_map_strong)

lemma join_inj:
  assumes "plain_segment (units d)" and "plain_segment (units d')"
    and "join [a, b, units d, units ''messages.json''] = join [a, b, units d', units ''messages.json'']"
  shows "d = d'"
proof -
  obtain ab segs where j: "join [a, b] = Path ab segs"
    by (cases "join [a, b]")
  from assms(3) have "units d = units d'"
    by (simp add: join_plain [OF assms(1) plain_messages_json]
        join_plain [OF assms(2) plain_messages_json] j)
  then show ?thesis by (rule units_inj)
qed

lemma digit_char_in: "digit_char n \<in> set ''0123456789''"
proof -
  have "n mod 10 < length ''0123456789''" by simp
  then show ?thesis unfolding digit_char_def by (rule nth_mem)
qed

lemma set_string_of_nat: "set (string_of_nat n) \<subseteq> set ''0123456789''"
proof (induction n rule: string_of_nat.induct)
  case (1 n)
  show ?case
  proof (cases "n < 10")
    case True
    then show ?thesis
      using digit_char_in [of n] by (subst string_of_nat.simps) simp
  next
    case False
    with 1 digit_char_in [of "n mod 10"] show ?thesis
      by (subst string_of_nat.simps) simp
  qed
qed

lemma digits_safe: "set ''0123456789'' \<subseteq> safe_chars"
  by (simp add: safe_chars_def)

lemma dash_safe: "CHR ''-'' \<in> safe_chars"
  by (simp add: safe_chars_def)

lemma zero_safe: "CHR ''0'' \<in> safe_chars"
  by (simp add: safe_chars_def)

lemma NaN_safe: "set ''NaN-NaN-NaN'' \<subseteq> safe_chars"
  by (simp add: safe_chars_def)

lemma string_of_nat_safe: "set (string_of_nat n) \<subseteq> safe_chars"
  using set_string_of_nat digits_safe by (rule subset_trans)

lemma string_of_int_safe: "set (string_of_int i) \<subseteq> safe_chars"
proof (cases "i < 0")
  case True
  then show ?thesis
    using string_of_nat_safe [of "nat (- i)"] dash_safe by (simp add: string_of_int_def)
next
  case False
  then show ?thesis
    using string_of_nat_safe [of "nat i"] by (simp add: string_of_int_def)
qed

lemma padStart_safe: "set s \<subseteq> safe_chars \<Longrightarrow> set (padStart n s) \<subseteq> safe_chars"
  using zero_safe by (auto simp: padStart_def)

lemma localDate_safe: "set (localDate tz t) \<subseteq> safe_chars"
proof (cases "valid_time t")
  case False
  then have "localDate tz t = ''NaN-NaN-NaN''" by (simp add: localDate_def)
  with NaN_safe show ?thesis by (simp only:)
next
  case True
  have a: "set (string_of_int (getFullYear tz t)) \<subseteq> safe_chars"
    by (rule string_of_int_safe)
  have b: "set (padStart 2 (string_of_int (getMonth tz t + 1))) \<subseteq> safe_chars"
    by (rule padStart_safe) (rule string_of_int_safe)
  have c: "set (padStart 2 (string_of_int (getDate tz t))) \<subseteq> safe_chars"
    by (rule padStart_safe) (rule string_of_int_safe)
  from True a b c dash_safe show ?thesis
    by (simp add: localDate_def Let_def)
qed

lemma localDate_dash: "CHR ''-'' \<in> set (localDate tz t)"
  by (simp add: localDate_def Let_def)

lemma safe_units: "c \<in> safe_chars \<Longrightarrow> of_char c \<noteq> slash"
  by (auto simp: safe_chars_def slash_def)

lemma localDate_plain: "plain_segment (units (localDate tz t))"
proof -
  have "slash \<notin> set (units (localDate tz t))"
  proof
    assume "slash \<in> set (units (localDate tz t))"
    then obtain c where "c \<in> set (localDate tz t)" and "of_char c = slash"
      by (auto simp: units_def)
    with localDate_safe [of tz t] safe_units show False by blast
  qed
  moreover have "dash \<in> set (units (localDate tz t))"
    using localDate_dash [of tz t] by (force simp: units_def dash_def)
  then have "units (localDate tz t) \<noteq> []" "units (localDate tz t) \<noteq> [dot]"
    "units (localDate tz t) \<noteq> [dot, dot]"
    by (auto simp: dash_def dot_def)
  ultimately show ?thesis by (simp add: plain_segment_def)
qed

section \<open>The files after a page\<close>

lemma map_toRecord_mappable: "mappable cfg ms \<Longrightarrow> map_toRecord ms cfg = Inr (records_of cfg ms)"
  by (induction ms) (auto simp: mappable_def records_of_def)

lemma records_of_Nil_iff: "records_of cfg ms = [] \<longleftrightarrow> ms = []"
  by (simp add: records_of_def)

lemma mappable_subset: "mappable cfg ms \<Longrightarrow> set ms' \<subseteq> set ms \<Longrightarrow> mappable cfg ms'"
  by (auto simp: mappable_def)

lemma writeJson_arrays:
  assumes "arrays_only s" and "records \<noteq> []"
  shows "\<exists>s'. writeJson p records s = (None, s') \<and> arrays_only s' \<and>
              files s' = (files s)(p \<mapsto> Text_json (JArr (records_at s p @ records)))"
proof (cases "files s p")
  case None
  with assms(2) have "writeJson p records s =
      (None, (mkdir_recursive (dirname p) s)
                    \<lparr>files := (files s)(p \<mapsto> Text_json (JArr records)),
                     written := written s @ [(p, records)]\<rparr>)"
    by (intro writeJson_no_prior) simp_all
  moreover from None have "records_at s p = []" by (simp add: records_at_def)
  ultimately show ?thesis
    using assms(1) by (auto simp: arrays_only_def)
next
  case (Some f)
  with assms(1) obtain xs where f: "f = Text_json (JArr xs)"
    by (auto simp: arrays_only_def)
  with Some assms(2) have "writeJson p records s =
      (None, (mkdir_recursive (dirname p) s)
                    \<lparr>files := (files s)(p \<mapsto> Text_json (JArr (xs @ records))),
                     written := written s @ [(p, records)]\<rparr>)"
    by (intro writeJson_array) simp_all
  moreover from Some f have "records_at s p = xs" by (simp add: records_at_def)
  ultimately show ?thesis
    using assms(1) by (auto simp: arrays_only_def)
qed

lemma records_at_upd:
  "files s' = (files s)(p \<mapsto> Text_json (JArr xs)) \<Longrightarrow>
   records_at s' q = (if q = p then xs else records_at s q)"
  by (simp add: records_at_def)

lemma write_batches_arrays:
  assumes "arrays_only s" and "\<forall>g \<in> set groups. mappable cfg (snd g)"
  shows "\<exists>s'. write_batches cfg name groups s = (None, s') \<and> arrays_only s' \<and>
           (\<forall>p. records_at s' p = records_at s p @
                  concat (map (\<lambda>g. if join [outDir cfg, name, units (fst g), units ''messages.json''] = p
                                     then records_of cfg (snd g) else []) groups)) \<and>
           dom (files s') = dom (files s) \<union>
             (\<lambda>g. join [outDir cfg, name, units (fst g), units ''messages.json'']) ` {g \<in> set groups. snd g \<noteq> []}"
  using assms
proof (induction groups arbitrary: s)
  case Nil
  then show ?case by simp
next
  case (Cons g groups)
  obtain dt batch where g: "g = (dt, batch)" by (cases g)
  let ?P = "\<lambda>g. join [outDir cfg, name, units (fst g), units ''messages.json'']"
  show ?case
  proof (cases "batch = []")
    case True
    from Cons.IH [of s] Cons.prems obtain s' where
      w: "write_batches cfg name groups s = (None, s')" and a: "arrays_only s'" and
      r: "\<forall>p. records_at s' p = records_at s p @
                  concat (map (\<lambda>g. if ?P g = p then records_of cfg (snd g) else []) groups)" and
      d: "dom (files s') = dom (files s) \<union> ?P ` {g \<in> set groups. snd g \<noteq> []}"
      by auto
    from w g True have "write_batches cfg name (g # groups) s = (None, s')" by simp
    moreover from r g True have "\<forall>p. records_at s' p = records_at s p @
                  concat (map (\<lambda>g. if ?P g = p then records_of cfg (snd g) else []) (g # groups))"
      by (simp add: records_of_def)
    moreover from d g True have "dom (files s') = dom (files s) \<union> ?P ` {g' \<in> set (g # groups). snd g' \<noteq> []}"
      by auto
    ultimately show ?thesis using a by blast
  next
    case ne: False
    from Cons.prems(2) g have m: "map_toRecord batch cfg = Inr (records_of cfg batch)"
      by (simp add: map_toRecord_mappable)
    from ne have rne: "records_of cfg batch \<noteq> []" by (simp add: records_of_Nil_iff)
    from writeJson_arrays [OF Cons.prems(1) rne, of "?P g"] obtain s1 where
      w1: "writeJson (?P g) (records_of cfg batch) s = (None, s1)" and a1: "arrays_only s1" and
      f1: "files s1 = (files s)(?P g \<mapsto> Text_json (JArr (records_at s (?P g) @ records_of cfg batch)))"
      by blast
    from Cons.IH [OF a1] Cons.prems(2) obtain s' where
      w: "write_batches cfg name groups s1 = (None, s')" and a: "arrays_only s'" and
      r: "\<forall>p. records_at s' p = records_at s1 p @
                  concat (map (\<lambda>g. if ?P g = p then records_of cfg (snd g) else []) groups)" and
      d: "dom (files s') = dom (files s1) \<union> ?P ` {g \<in> set groups. snd g \<noteq> []}"
      by auto
    from w w1 m g ne have "write_batches cfg name (g # groups) s = (None, s')"
      by (simp add: Let_def)
    moreover have "\<forall>p. records_at s' p = records_at s p @
                  concat (map (\<lambda>g. if ?P g = p then records_of cfg (snd g) else []) (g # groups))"
      using r records_at_upd [OF f1] g by simp
    moreover have "dom (files s') = dom (files s) \<union> ?P ` {g' \<in> set (g # groups). snd g' \<noteq> []}"
    proof -
      from g ne have "{g' \<in> set (g # groups). snd g' \<noteq> []} = insert g {g' \<in> set groups. snd g' \<noteq> []}"
        by auto
      moreover from f1 have "dom (files s1) = insert (?P g) (dom (files s))" by simp
      ultimately show ?thesis using d by simp
    qed
    ultimately show ?thesis using a by blast
  qed
qed

lemma concat_map_single:
  "distinct ks \<Longrightarrow>
   concat (map (\<lambda>k. if k = d then g k else []) ks) = (if d \<in> set ks then g d else [])"
  by (induction ks) auto

lemma writeMessages_arrays:
  assumes "arrays_only s" and "mappable cfg msgs"
  shows "\<exists>s'. writeMessages toLowerCase tz cfg msgs channelName s = (None, s') \<and> arrays_only s' \<and>
           (\<forall>d. plain_segment (units d) \<longrightarrow>
              records_at s' (partition_path toLowerCase cfg channelName d) =
                records_at s (partition_path toLowerCase cfg channelName d) @
                records_of cfg (sort_key createdTimestamp
                  (filter (\<lambda>m. localDate tz (createdTimestamp m) = d) msgs))) \<and>
           dom (files s') = dom (files s) \<union>
             (\<lambda>m. partition_path toLowerCase cfg channelName (localDate tz (createdTimestamp m))) ` set msgs"
proof (cases "msgs = []")
  case True
  with assms(1) show ?thesis
    by (simp add: writeMessages_def records_of_def)
next
  case False
  let ?f = "\<lambda>m. localDate tz (createdTimestamp m)"
  let ?sorted = "sort_key createdTimestamp msgs"
  let ?ks = "first_keys (map ?f ?sorted)"
  let ?groups = "map (\<lambda>k. (k, filter (\<lambda>m. ?f m = k) ?sorted)) ?ks"
  let ?name = "sanitizeChannelName toLowerCase channelName"
  let ?P = "\<lambda>d. join [outDir cfg, ?name, units d, units ''messages.json'']"
  have wm: "writeMessages toLowerCase tz cfg msgs channelName s = write_batches cfg ?name ?groups s"
    using False by (simp add: writeMessages_def Let_def groupBy_eq)
  have mp: "\<forall>g \<in> set ?groups. mappable cfg (snd g)"
    using assms(2) by (auto intro: mappable_subset)
  from write_batches_arrays [OF assms(1) mp, of ?name] obtain s' where
    w: "write_batches cfg ?name ?groups s = (None, s')" and a: "arrays_only s'" and
    r: "\<forall>p. records_at s' p = records_at s p @
          concat (map (\<lambda>g. if ?P (fst g) = p then records_of cfg (snd g) else []) ?groups)" and
    d: "dom (files s') = dom (files s) \<union> (\<lambda>g. ?P (fst g)) ` {g \<in> set ?groups. snd g \<noteq> []}"
    by blast
  have ks: "set ?ks = ?f ` set msgs" by (simp add: set_first_keys)
  have plain: "\<forall>k \<in> set ?ks. plain_segment (units k)"
    using ks localDate_plain by auto
  have rec: "records_at s' (?P d) = records_at s (?P d) @
                records_of cfg (sort_key createdTimestamp (filter (\<lambda>m. ?f m = d) msgs))"
    if pd: "plain_segment (units d)" for d
  proof -
    have "map (\<lambda>g. if ?P (fst g) = ?P d then records_of cfg (snd g) else []) ?groups
        = map (\<lambda>k. if k = d then records_of cfg (filter (\<lambda>m. ?f m = k) ?sorted) else []) ?ks"
      using plain pd by (auto simp: comp_def dest: join_inj)
    then have "concat (map (\<lambda>g. if ?P (fst g) = ?P d then records_of cfg (snd g) else []) ?groups)
        = (if d \<in> set ?ks then records_of cfg (filter (\<lambda>m. ?f m = d) ?sorted) else [])"
      by (simp only: concat_map_single [OF distinct_first_keys])
    also have "\<dots> = records_of cfg (filter (\<lambda>m. ?f m = d) ?sorted)"
    proof (cases "d \<in> set ?ks")
      case True
      then show ?thesis by simp
    next
      case False
      with ks have "filter (\<lambda>m. ?f m = d) ?sorted = []"
        by (auto simp: filter_empty_conv)
      with False show ?thesis by (simp add: records_of_def)
    qed
    also have "filter (\<lambda>m. ?f m = d) ?sorted = sort_key createdTimestamp (filter (\<lambda>m. ?f m = d) msgs)"
      by (simp add: filter_sort)
    finally show ?thesis using r by simp
  qed
  have "{g \<in> set ?groups. snd g \<noteq> []} = set ?groups"
    using ks by (auto simp: filter_empty_conv)
  then have "(\<lambda>g. ?P (fst g)) ` {g \<in> set ?groups. snd g \<noteq> []} = ?P ` set ?ks"
    by (simp add: image_image)
  with d ks have dm: "dom (files s') = dom (files s) \<union> (\<lambda>m. ?P (?f m)) ` set msgs"
    by (simp add: image_image)
  from wm w have res: "writeMessages toLowerCase tz cfg msgs channelName s = (None, s')" by simp
  show ?thesis
    unfolding partition_path_def
  proof (intro exI [of _ s'] conjI allI impI)
    show "writeMessages toLowerCase tz cfg msgs channelName s = (None, s')" by (rule res)
    show "arrays_only s'" by (rule a)
    show "dom (files s') = dom (files s) \<union> (\<lambda>m. ?P (?f m)) ` set msgs" by (rule dm)
  next
    fix d assume "plain_segment (units d)"
    then show "records_at s' (?P d) = records_at s (?P d) @
                records_of cfg (sort_key createdTimestamp (filter (\<lambda>m. ?f m = d) msgs))"
      by (rule rec)
  qed
qed

section \<open>A run over a history of 150 messages\<close>

lemma filter_below_nth:
  assumes "sorted_wrt (\<lambda>a b. f b < (f a :: nat)) xs" and "k < length xs"
  shows "filter (\<lambda>x. f x < f (xs ! k)) xs = drop (Suc k) xs"
  using assms
proof (induction xs arbitrary: k)
  case Nil
  then show ?case by simp
next
  case (Cons x xs)
  from Cons.prems(1) have below: "\<forall>y \<in> set xs. f y < f x" and s: "sorted_wrt (\<lambda>a b. f b < f a) xs"
    by simp_all
  show ?case
  proof (cases k)
    case 0
    with below show ?thesis by simp
  next
    case (Suc k')
    with Cons.prems(2) have k': "k' < length xs" by simp
    then have "f (xs ! k') < f x" using below by simp
    then have "\<not> f x < f (xs ! k')" by simp
    with Suc Cons.IH [OF s k'] show ?thesis by simp
  qed
qed

lemma foldl_oldest_last:
  assumes "sorted_wrt (\<lambda>a b. createdTimestamp b \<le> createdTimestamp a) (m # ms)"
  shows "foldl (\<lambda>a b. if createdTimestamp a < createdTimestamp b then a else b) m ms = last (m # ms)"
  using assms
proof (induction ms arbitrary: m)
  case Nil
  show ?case by simp
next
  case (Cons b ms)
  from Cons.prems have "createdTimestamp b \<le> createdTimestamp m"
    and s: "sorted_wrt (\<lambda>a b. createdTimestamp b \<le> createdTimestamp a) (b # ms)"
    by simp_all
  then have "(if createdTimestamp m < createdTimestamp b then m else b) = b" by simp
  with Cons.IH [OF s] show ?case by simp
qed

lemma reduce_oldest_last:
  assumes "sorted_wrt (\<lambda>a b. createdTimestamp b \<le> createdTimestamp a) page" and "page \<noteq> []"
  shows "reduce_oldest page = Inr (last page)"
proof -
  from assms(2) obtain m ms where p: "page = m # ms" by (cases page) auto
  with assms(1) foldl_oldest_last [of m ms] show ?thesis
    by (simp add: reduce_oldest_def)
qed

lemma history_fetch_None: "history_fetch hist limit None = Inr (take limit hist)"
  by (simp add: history_fetch_def)

lemma history_fetch_Some:
  assumes "sorted_wrt (\<lambda>a b. snowflake (msg_id b) < snowflake (msg_id a)) hist"
    and "k < length hist"
  shows "history_fetch hist limit (Some (msg_id (hist ! k))) = Inr (take limit (drop (Suc k) hist))"
  using filter_below_nth [of "\<lambda>m. snowflake (msg_id m)" hist k] assms
  by (simp add: history_fetch_def)


lemma backfill_three_pages:
  fixes hist :: "message list"
  defines "page1 \<equiv> take 100 hist" and "page2 \<equiv> drop 100 hist"
  assumes len: "length hist = 150"
    and ids: "sorted_wrt (\<lambda>a b. snowflake (msg_id b) < snowflake (msg_id a)) hist"
    and times: "sorted_wrt (\<lambda>a b. createdTimestamp b \<le> createdTimestamp a) hist"
    and win: "\<forall>m \<in> set hist. in_window cfg m"
    and w1: "writeMessages toLowerCase tz cfg page1 name s = (None, s1)"
    and w2: "writeMessages toLowerCase tz cfg page2 name s1 = (None, s2)"
    and ch: "messages_fetch ch = history_fetch hist"
  shows "backfill_loop 3 toLowerCase tz cfg ch name None \<lparr>fs = s, total = 0, pages = []\<rparr>
           = Some (None, \<lparr>fs = s2, total = 150, pages = [page1, page2, []]\<rparr>)"
proof -
  let ?st0 = "\<lparr>fs = s, total = 0, pages = []\<rparr>"
  let ?st1 = "\<lparr>fs = s1, total = 100, pages = [page1]\<rparr>"
  let ?st2 = "\<lparr>fs = s2, total = 150, pages = [page1, page2]\<rparr>"
  have l1: "length page1 = 100" and l2: "length page2 = 50"
    using len by (simp_all add: page1_def page2_def)
  have ne1: "page1 \<noteq> []" and ne2: "page2 \<noteq> []"
    using l1 l2 by auto
  have in1: "filter (in_window cfg) page1 = page1"
    using win by (intro filter_True) (auto simp: page1_def dest: in_set_takeD)
  have in2: "filter (in_window cfg) page2 = page2"
    using win by (intro filter_True) (auto simp: page2_def dest: in_set_dropD)
  have "last page1 = page1 ! (length page1 - 1)"
    using ne1 by (rule last_conv_nth)
  then have last1: "last page1 = hist ! 99"
    using l1 by (simp add: page1_def)
  have "last page2 = page2 ! (length page2 - 1)"
    using ne2 by (rule last_conv_nth)
  then have last2: "last page2 = hist ! 149"
    using l2 len by (simp add: page2_def)
  have o1: "reduce_oldest page1 = Inr (hist ! 99)"
    using reduce_oldest_last [OF sorted_wrt_take [OF times] ne1 [unfolded page1_def]] last1
    by (simp add: page1_def)
  have o2: "reduce_oldest page2 = Inr (hist ! 149)"
    using reduce_oldest_last [OF sorted_wrt_drop [OF times] ne2 [unfolded page2_def]] last2
    by (simp add: page2_def)
  have "hist ! 99 \<in> set hist" and "hist ! 149 \<in> set hist"
    using len by simp_all
  with win have a1: "\<not> createdTimestamp (hist ! 99) < cfg_start cfg"
    and a2: "\<not> createdTimestamp (hist ! 149) < cfg_start cfg"
    by (auto simp: in_window_def)
  have f1: "messages_fetch ch 100 None = Inr page1"
    by (simp add: ch history_fetch_None page1_def)
  have f2: "messages_fetch ch 100 (Some (msg_id (hist ! 99))) = Inr page2"
    using history_fetch_Some [OF ids, of 99 100] len by (simp add: ch page2_def)
  have f3: "messages_fetch ch 100 (Some (msg_id (hist ! 149))) = Inr []"
    using history_fetch_Some [OF ids, of 149 100] len by (simp add: ch)
  have step1: "backfill_loop (Suc (Suc (Suc 0))) toLowerCase tz cfg ch name None ?st0
      = backfill_loop (Suc (Suc 0)) toLowerCase tz cfg ch name (Some (msg_id (hist ! 99))) ?st1"
    using loop_continue [where ch = ch and b = None and page = page1 and tz = tz and cfg = cfg
        and name = name and st = ?st0 and s' = s1 and oldest = "hist ! 99" and n = "Suc (Suc 0)",
        OF f1 ne1 _ o1 a1] w1 in1 l1
    by simp
  have step2: "backfill_loop (Suc (Suc 0)) toLowerCase tz cfg ch name (Some (msg_id (hist ! 99))) ?st1
      = backfill_loop (Suc 0) toLowerCase tz cfg ch name (Some (msg_id (hist ! 149))) ?st2"
    using loop_continue [where ch = ch and b = "Some (msg_id (hist ! 99))" and page = page2
        and tz = tz and cfg = cfg and name = name and st = ?st1 and s' = s2
        and oldest = "hist ! 149" and n = "Suc 0", OF f2 ne2 _ o2 a2] w2 in2 l2
    by simp
  have step3: "backfill_loop (Suc 0) toLowerCase tz cfg ch name (Some (msg_id (hist ! 149))) ?st2
      = Some (None, \<lparr>fs = s2, total = 150, pages = [page1, page2, []]\<rparr>)"
    using loop_exhausted [where ch = ch and b = "Some (msg_id (hist ! 149))" and n = 0
        and tz = tz and cfg = cfg and name = name and st = ?st2, OF f3] by simp
  have "(3::nat) = Suc (Suc (Suc 0))" by simp
  with step1 step2 step3 show ?thesis by (simp only:)
qed

lemma arrays_only_records_at:
  assumes "arrays_only s" and "p \<in> dom (files s)"
  shows "files s p = Some (Text_json (JArr (records_at s p)))"
proof -
  from assms(2) obtain f where f: "files s p = Some f" by auto
  with assms(1) obtain xs where "f = Text_json (JArr xs)"
    by (auto simp: arrays_only_def)
  with f show ?thesis by (simp add: records_at_def)
qed

lemma backfill_150_run:
  fixes hist :: "message list" and tz :: "int \<Rightarrow> int"
  defines "date \<equiv> \<lambda>m. localDate tz (createdTimestamp m)"
  defines "batch1 \<equiv> \<lambda>d. sort_key createdTimestamp (filter (\<lambda>m. date m = d) (take 100 hist))"
  defines "batch2 \<equiv> \<lambda>d. sort_key createdTimestamp (filter (\<lambda>m. date m = d) (drop 100 hist))"
  assumes len: "length hist = 150"
    and ids: "sorted_wrt (\<lambda>a b. snowflake (msg_id b) < snowflake (msg_id a)) hist"
    and times: "sorted_wrt (\<lambda>a b. createdTimestamp b \<le> createdTimestamp a) hist"
    and win: "\<forall>m \<in> set hist. in_window cfg m"
    and days: "date ` set hist = {d1, d2}" and diff: "d1 \<noteq> d2"
    and mp: "mappable cfg hist"
    and fresh: "files s = Map.empty"
    and ch: "messages_fetch ch = history_fetch hist"
  shows "\<exists>st. backfill 3 toLowerCase tz cfg ch s = Some (None, st) \<and>
           pages st = [take 100 hist, drop 100 hist, []] \<and>
           total st = 150 \<and>
           dom (files (fs st)) = {partition_path toLowerCase cfg (channelName_of ch) d1,
                                  partition_path toLowerCase cfg (channelName_of ch) d2} \<and>
           partition_path toLowerCase cfg (channelName_of ch) d1 \<noteq> partition_path toLowerCase cfg (channelName_of ch) d2 \<and>
           (\<forall>d \<in> {d1, d2}.
              files (fs st) (partition_path toLowerCase cfg (channelName_of ch) d) =
                Some (Text_json (JArr (records_of cfg (batch1 d @ batch2 d)))))"
proof -
  let ?name = "channelName_of ch"
  let ?P = "partition_path toLowerCase cfg ?name"
  let ?page1 = "take 100 hist" and ?page2 = "drop 100 hist"
  have a0: "arrays_only s"
    using fresh by (simp add: arrays_only_def)
  have m1: "mappable cfg ?page1" and m2: "mappable cfg ?page2"
    using mp by (auto intro: mappable_subset dest: in_set_takeD in_set_dropD)
  from writeMessages_arrays [OF a0 m1, of toLowerCase tz ?name] obtain s1 where
    w1: "writeMessages toLowerCase tz cfg ?page1 ?name s = (None, s1)" and a1: "arrays_only s1" and
    r1: "\<forall>d. plain_segment (units d) \<longrightarrow> records_at s1 (?P d) = records_at s (?P d) @ records_of cfg (batch1 d)" and
    d1: "dom (files s1) = dom (files s) \<union> (\<lambda>m. ?P (date m)) ` set ?page1"
    unfolding batch1_def date_def by blast
  from writeMessages_arrays [OF a1 m2, of toLowerCase tz ?name] obtain s2 where
    w2: "writeMessages toLowerCase tz cfg ?page2 ?name s1 = (None, s2)" and a2: "arrays_only s2" and
    r2: "\<forall>d. plain_segment (units d) \<longrightarrow> records_at s2 (?P d) = records_at s1 (?P d) @ records_of cfg (batch2 d)" and
    d2: "dom (files s2) = dom (files s1) \<union> (\<lambda>m. ?P (date m)) ` set ?page2"
    unfolding batch2_def date_def by blast
  have run: "backfill 3 toLowerCase tz cfg ch s
      = Some (None, \<lparr>fs = s2, total = 150, pages = [?page1, ?page2, []]\<rparr>)"
    unfolding backfill_def
    by (rule backfill_three_pages [OF len ids times win w1 w2 ch])
  have "set ?page1 \<union> set ?page2 = set hist"
    by (metis append_take_drop_id set_append)
  then have "(\<lambda>m. ?P (date m)) ` set ?page1 \<union> (\<lambda>m. ?P (date m)) ` set ?page2
      = ?P ` date ` set hist"
    by (auto simp: image_iff)
  with d1 d2 fresh days have dom2: "dom (files s2) = {?P d1, ?P d2}"
    by simp
  have pl: "plain_segment (units d)" if "d \<in> {d1, d2}" for d
  proof -
    from that days obtain m where "d = date m" by (metis imageE)
    then show ?thesis by (simp add: date_def localDate_plain)
  qed
  have ne: "?P d1 \<noteq> ?P d2"
    using join_inj [of d1 d2 "outDir cfg" "sanitizeChannelName toLowerCase ?name"] pl diff
    by (auto simp: partition_path_def)
  have content: "files s2 (?P d) = Some (Text_json (JArr (records_of cfg (batch1 d @ batch2 d))))"
    if "d \<in> {d1, d2}" for d
  proof -
    from that dom2 have "?P d \<in> dom (files s2)" by auto
    from arrays_only_records_at [OF a2 this]
    have "files s2 (?P d) = Some (Text_json (JArr (records_at s2 (?P d))))" .
    moreover have "records_at s (?P d) = []"
      using fresh by (simp add: records_at_def)
    then have "records_at s2 (?P d) = records_of cfg (batch1 d @ batch2 d)"
      using r1 r2 pl [OF that] by (simp add: records_of_def)
    ultimately show ?thesis by simp
  qed
  from run dom2 ne content show ?thesis by simp
qed

section \<open>The scenario of 150 messages over two days\<close>

lemma digit_val_digit_char_all: "\<forall>d \<in> set [0, 1, 2, 3, 4, 5, 6, 7, 8, 9]. digit_val (digit_char d) = d"
  by (simp add: digit_val_def digit_char_def)

lemma digit_val_digit_char: "d < 10 \<Longrightarrow> digit_val (digit_char d) = d"
proof -
  assume "d < 10"
  then have "d \<in> set [0, 1, 2, 3, 4, 5, 6, 7, 8, 9]"
    by (simp add: numeral_eq_Suc less_Suc_eq) 
  with digit_val_digit_char_all show ?thesis by blast
qed

lemma snowflake_snoc: "snowflake (s @ [c]) = 10 * snowflake s + digit_val c"
  by (simp add: snowflake_def)

lemma snowflake_string_of_nat: "snowflake (string_of_nat n) = n"
proof (induction n rule: string_of_nat.induct)
  case (1 n)
  show ?case
  proof (cases "n < 10")
    case True
    then have "string_of_nat n = [digit_char n]" by (subst string_of_nat.simps) simp
    with True show ?thesis
      by (simp add: snowflake_def digit_val_digit_char)
  next
    case False
    then have "string_of_nat n = string_of_nat (n div 10) @ [digit_char (n mod 10)]"
      by (subst string_of_nat.simps) simp
    with False 1 show ?thesis
      by (simp add: snowflake_snoc digit_val_digit_char)
  qed
qed

lemma msg_id_message150: "msg_id (message150 i) = string_of_nat i"
  by (simp add: message150_def plain_message_def)

lemma createdTimestamp_message150: "createdTimestamp (message150 i) = 86399924 + int i"
  by (simp add: message150_def plain_message_def)

lemma length_history150: "length history150 = 150"
  by (simp add: history150_def)

lemma set_history150: "set history150 = message150 ` {1..<151}"
  by (simp add: history150_def)

lemma ids_history150:
  "sorted_wrt (\<lambda>a b. snowflake (msg_id b) < snowflake (msg_id a)) history150"
  by (simp add: history150_def sorted_wrt_map sorted_wrt_rev msg_id_message150
      snowflake_string_of_nat)

lemma times_history150:
  "sorted_wrt (\<lambda>a b. createdTimestamp b \<le> createdTimestamp a) history150"
proof -
  have "sorted_wrt (\<lambda>x y. x \<le> y) [1..<151]"
    using sorted_wrt_upt [of 1 151] by (rule sorted_wrt_mono_rel [rotated]) simp
  then show ?thesis
    by (simp add: history150_def sorted_wrt_map sorted_wrt_rev createdTimestamp_message150)
qed

lemma window_history150: "\<forall>m \<in> set history150. in_window window_config m"
  by (auto simp: set_history150 in_window_def window_config_def createdTimestamp_message150)

lemma localDate_day1:
  assumes "0 \<le> t" and "t < 86400000"
  shows "localDate utc t = ''1970-01-01''"
proof -
  from assms have d: "(t + utc t) div msPerDay = 0"
    by (simp add: utc_def msPerDay_def)
  have c: "civil_from_days 0 = (1970, 1, 1)"
    by (simp add: civil_from_days_def Let_def cong: let_weak_cong)
  from assms have "valid_time t" by (simp add: valid_time_def)
  then show ?thesis
    by (simp add: localDate_def getFullYear_def getMonth_def getDate_def d c Let_def
        string_of_int_def padStart_def digit_char_def
        string_of_nat_numeral string_of_nat_0 string_of_nat_1)
qed

lemma localDate_day2:
  assumes "86400000 \<le> t" and "t < 172800000"
  shows "localDate utc t = ''1970-01-02''"
proof -
  from assms have d: "(t + utc t) div msPerDay = 1"
    by (simp add: utc_def msPerDay_def)
  have c: "civil_from_days 1 = (1970, 1, 2)"
    by (simp add: civil_from_days_def Let_def cong: let_weak_cong)
  from assms have "valid_time t" by (simp add: valid_time_def)
  then show ?thesis
    by (simp add: localDate_def getFullYear_def getMonth_def getDate_def d c Let_def
        string_of_int_def padStart_def digit_char_def
        string_of_nat_numeral string_of_nat_0 string_of_nat_1)
qed

lemma date_message150:
  assumes "1 \<le> i" and "i < 151"
  shows "localDate utc (createdTimestamp (message150 i))
           = (if i < 76 then ''1970-01-01'' else ''1970-01-02'')"
  using assms by (simp add: createdTimestamp_message150 localDate_day1 localDate_day2)

lemma days_history150:
  "(\<lambda>m. localDate utc (createdTimestamp m)) ` set history150 = {''1970-01-01'', ''1970-01-02''}"
proof -
  have "(\<lambda>m. localDate utc (createdTimestamp m)) ` set history150
      = (\<lambda>i::nat. if i < 76 then ''1970-01-01'' else ''1970-01-02'') ` {1..<151}"
    unfolding set_history150 image_image
    by (rule image_cong) (simp_all add: date_message150)
  also have "\<dots> = {''1970-01-01'', ''1970-01-02''}"
  proof
    show "(\<lambda>i::nat. if i < 76 then ''1970-01-01'' else ''1970-01-02'') ` {1..<151}
        \<subseteq> {''1970-01-01'', ''1970-01-02''}"
      by auto
    have "''1970-01-01''
          \<in> (\<lambda>i::nat. if i < 76 then ''1970-01-01'' else ''1970-01-02'') ` {1..<151}"
      by (rule image_eqI [where x = 1]) simp_all
    moreover have "''1970-01-02''
          \<in> (\<lambda>i::nat. if i < 76 then ''1970-01-01'' else ''1970-01-02'') ` {1..<151}"
      by (rule image_eqI [where x = 150]) simp_all
    ultimately show "{''1970-01-01'', ''1970-01-02''}
        \<subseteq> (\<lambda>i::nat. if i < 76 then ''1970-01-01'' else ''1970-01-02'') ` {1..<151}"
      by simp
  qed
  finally show ?thesis .
qed

lemma toISOString_valid: "valid_time t \<Longrightarrow> \<exists>s. toISOString t = Inr s"
  by (simp add: toISOString_def Let_def split: prod.splits)

lemma mappable_history150: "mappable window_config history150"
proof -
  have "\<exists>r. toRecord (message150 i) window_config = Inr r" if "i \<in> {1..<151}" for i
  proof -
    from that have "valid_time (createdTimestamp (message150 i))"
      by (simp add: createdTimestamp_message150 valid_time_def)
    then obtain s where "toISOString (createdTimestamp (message150 i)) = Inr s"
      using toISOString_valid by blast
    then show ?thesis
      by (simp add: toRecord_def edited_at_json_def message150_def plain_message_def)
  qed
  then show ?thesis
    by (auto simp: mappable_def set_history150)
qed

lemma fetch_channel150: "messages_fetch channel150 = history_fetch history150"
  by (simp add: channel150_def history_channel_def)

lemma files_empty_fs: "files empty_fs = Map.empty"
  by (simp add: empty_fs_def)

text \<open>
  Claim C7, as amended. Take a channel history of exactly 150 messages, given newest
  first with strictly decreasing ids and creation times that do not increase, served in
  pages of at most 100; let the messages span exactly two local calendar days, lie all
  inside the export window and be mappable, and let the file system hold no file. Then
  the traversal makes exactly three fetch calls, which return the newest 100 messages,
  the other 50 and an empty page, and ends without an error. It leaves exactly two
  partition files, one for each day, at different paths. The file of a day holds the
  records of exactly the messages of that day, each once: first those of the first page
  in ascending order of creation time, then those of the second page in ascending order
  of creation time.
\<close>

theorem backfill_150_messages:
  assumes "length hist = 150"
    and "sorted_wrt (\<lambda>a b. snowflake (msg_id b) < snowflake (msg_id a)) hist"
    and "sorted_wrt (\<lambda>a b. createdTimestamp b \<le> createdTimestamp a) hist"
    and "\<forall>m \<in> set hist. cfg_start cfg \<le> createdTimestamp m \<and> createdTimestamp m < cfg_end cfg"
    and "(\<lambda>m. localDate tz (createdTimestamp m)) ` set hist = {d1, d2}" and "d1 \<noteq> d2"
    and "\<forall>m \<in> set hist. \<exists>r. toRecord m cfg = Inr r"
    and "files s = Map.empty"
    and "messages_fetch ch = history_fetch hist"
  shows "\<exists>st. backfill 3 toLowerCase tz cfg ch s = Some (None, st) \<and>
           pages st = [take 100 hist, drop 100 hist, []] \<and>
           dom (files (fs st)) = {partition_path toLowerCase cfg (channelName_of ch) d1,
                                  partition_path toLowerCase cfg (channelName_of ch) d2} \<and>
           partition_path toLowerCase cfg (channelName_of ch) d1 \<noteq> partition_path toLowerCase cfg (channelName_of ch) d2 \<and>
           (\<forall>d \<in> {d1, d2}.
              \<exists>batch1 batch2 records.
                batch1 = sort_key createdTimestamp
                           (filter (\<lambda>m. localDate tz (createdTimestamp m) = d) (take 100 hist)) \<and>
                batch2 = sort_key createdTimestamp
                           (filter (\<lambda>m. localDate tz (createdTimestamp m) = d) (drop 100 hist)) \<and>
                mset (batch1 @ batch2) = mset (filter (\<lambda>m. localDate tz (createdTimestamp m) = d) hist) \<and>
                map_toRecord (batch1 @ batch2) cfg = Inr records \<and>
                files (fs st) (partition_path toLowerCase cfg (channelName_of ch) d)
                  = Some (Text_json (JArr records)))"
proof -
  let ?date = "\<lambda>m. localDate tz (createdTimestamp m)"
  let ?b1 = "\<lambda>d. sort_key createdTimestamp (filter (\<lambda>m. ?date m = d) (take 100 hist))"
  let ?b2 = "\<lambda>d. sort_key createdTimestamp (filter (\<lambda>m. ?date m = d) (drop 100 hist))"
  let ?P = "partition_path toLowerCase cfg (channelName_of ch)"
  from assms(4) have win: "\<forall>m \<in> set hist. in_window cfg m"
    by (simp add: in_window_def)
  from assms(7) have mp: "mappable cfg hist"
    by (simp add: mappable_def)
  from backfill_150_run [OF assms(1,2,3) win assms(5,6) mp assms(8,9)] obtain st where
    run: "backfill 3 toLowerCase tz cfg ch s = Some (None, st)" and
    pg: "pages st = [take 100 hist, drop 100 hist, []]" and
    dm: "dom (files (fs st)) = {?P d1, ?P d2}" and ne: "?P d1 \<noteq> ?P d2" and
    ct: "\<forall>d \<in> {d1, d2}. files (fs st) (?P d) = Some (Text_json (JArr (records_of cfg (?b1 d @ ?b2 d))))"
    by blast
  have ms: "mset (?b1 d @ ?b2 d) = mset (filter (\<lambda>m. ?date m = d) hist)" for d
  proof -
    have "mset (?b1 d @ ?b2 d)
        = mset (filter (\<lambda>m. ?date m = d) (take 100 hist) @ filter (\<lambda>m. ?date m = d) (drop 100 hist))"
      by simp
    also have "\<dots> = mset (filter (\<lambda>m. ?date m = d) (take 100 hist @ drop 100 hist))"
      by (simp only: filter_append)
    finally show ?thesis by simp
  qed
  have mr: "map_toRecord (?b1 d @ ?b2 d) cfg = Inr (records_of cfg (?b1 d @ ?b2 d))" for d
  proof (rule map_toRecord_mappable)
    have "set (?b1 d @ ?b2 d) \<subseteq> set hist"
      by (auto dest: in_set_takeD in_set_dropD)
    with mp show "mappable cfg (?b1 d @ ?b2 d)"
      by (rule mappable_subset)
  qed
  have "\<forall>d \<in> {d1, d2}.
              \<exists>batch1 batch2 records.
                batch1 = ?b1 d \<and> batch2 = ?b2 d \<and>
                mset (batch1 @ batch2) = mset (filter (\<lambda>m. ?date m = d) hist) \<and>
                map_toRecord (batch1 @ batch2) cfg = Inr records \<and>
                files (fs st) (?P d) = Some (Text_json (JArr records))"
    using ct ms mr by blast
  with run pg dm ne show ?thesis by blast
qed

theorem backfill_150_messages_witness:
  "length history150 = 150 \<and>
   (\<lambda>m. localDate utc (createdTimestamp m)) ` set history150 = {''1970-01-01'', ''1970-01-02''} \<and>
   (\<exists>st. backfill 3 latin_lower utc window_config channel150 empty_fs = Some (None, st) \<and>
         pages st = [take 100 history150, drop 100 history150, []] \<and>
         dom (files (fs st)) = {partition_path latin_lower window_config (channelName_of channel150) ''1970-01-01'',
                                partition_path latin_lower window_config (channelName_of channel150) ''1970-01-02''})"
proof -
  have w: "\<forall>m \<in> set history150.
      cfg_start window_config \<le> createdTimestamp m \<and> createdTimestamp m < cfg_end window_config"
    using window_history150 by (simp add: in_window_def)
  have m: "\<forall>m \<in> set history150. \<exists>r. toRecord m window_config = Inr r"
    using mappable_history150 by (simp add: mappable_def)
  have d: "''1970-01-01'' \<noteq> ''1970-01-02''" by simp
  from backfill_150_messages [OF length_history150 ids_history150 times_history150 w
      days_history150 d m files_empty_fs fetch_channel150]
  show ?thesis
    using length_history150 days_history150 by blast
qed

lemma take_history150: "take 100 history150 = map message150 (rev [51..<151])"
  by (simp add: history150_def take_map take_rev)

lemma drop_history150: "drop 100 history150 = map message150 (rev [1..<51])"
  by (simp add: history150_def drop_map drop_rev)

lemma filter_day1_message150:
  assumes "1 \<le> a" and "b \<le> 151"
  shows "filter (\<lambda>m. localDate utc (createdTimestamp m) = ''1970-01-01'') (map message150 (rev [a..<b]))
           = map message150 (rev (filter (\<lambda>i. i < 76) [a..<b]))"
proof -
  have "filter ((\<lambda>m. localDate utc (createdTimestamp m) = ''1970-01-01'') \<circ> message150) (rev [a..<b])
      = filter (\<lambda>i. i < 76) (rev [a..<b])"
    using assms by (intro filter_cong refl) (simp add: date_message150)
  then show ?thesis
    by (simp add: filter_map rev_filter)
qed

lemma filter_upt_page1: "filter (\<lambda>i. i < 76) [51..<151] = [51..<76]"
proof -
  have "[51..<151] = [51..<76] @ [76..<76 + 75]"
    using upt_add_eq_append [of 51 76 75] by simp
  then show ?thesis by simp
qed

lemma filter_upt_page2: "filter (\<lambda>i. i < 76) [1..<51] = [1..<51]"
  by simp

lemma sort_message150:
  "sort_key createdTimestamp (map message150 (rev [a..<b])) = map message150 [a..<b]"
proof (rule sort_key_inj_key_eq)
  show "mset (map message150 (rev [a..<b])) = mset (map message150 [a..<b])"
    by simp
  show "inj_on createdTimestamp (set (map message150 (rev [a..<b])))"
    by (auto simp: inj_on_def createdTimestamp_message150)
  have "sorted_wrt (\<lambda>x y. x \<le> y) [a..<b]"
    using sorted_wrt_upt [of a b] by (rule sorted_wrt_mono_rel [rotated]) simp
  then show "sorted (map createdTimestamp (map message150 [a..<b]))"
    by (simp add: sorted_wrt_map createdTimestamp_message150 comp_def)
qed

lemma batch1_day1:
  "sort_key createdTimestamp
     (filter (\<lambda>m. localDate utc (createdTimestamp m) = ''1970-01-01'') (take 100 history150))
   = map message150 [51..<76]"
proof -
  have "filter (\<lambda>m. localDate utc (createdTimestamp m) = ''1970-01-01'') (take 100 history150)
      = map message150 (rev (filter (\<lambda>i. i < 76) [51..<151]))"
    unfolding take_history150 by (rule filter_day1_message150) simp_all
  also have "\<dots> = map message150 (rev [51..<76])"
    by (simp only: filter_upt_page1)
  finally show ?thesis
    by (simp only: sort_message150)
qed

lemma batch2_day1:
  "sort_key createdTimestamp
     (filter (\<lambda>m. localDate utc (createdTimestamp m) = ''1970-01-01'') (drop 100 history150))
   = map message150 [1..<51]"
proof -
  have "filter (\<lambda>m. localDate utc (createdTimestamp m) = ''1970-01-01'') (drop 100 history150)
      = map message150 (rev (filter (\<lambda>i. i < 76) [1..<51]))"
    unfolding drop_history150 by (rule filter_day1_message150) simp_all
  also have "\<dots> = map message150 (rev [1..<51])"
    by (simp only: filter_upt_page2)
  finally show ?thesis
    by (simp only: sort_message150)
qed

lemma day1_path_eq: "partition_path latin_lower window_config (channelName_of channel150) ''1970-01-01'' = day1_path"
  by (simp add: partition_path_def channelName_of_def channel150_def history_channel_def
      window_config_def day1_path_def path_eval sanitize_eval)

lemma created_at_message150_51:
  "jfield ''created_at'' (case toRecord (message150 51) window_config of Inr r \<Rightarrow> r | Inl err \<Rightarrow> JNull)
     = Some (JStr ''1970-01-01T23:59:59.975Z'')"
  by (simp add: message150_def plain_message_def window_config_def record_eval date_eval
      cong: let_weak_cong)

lemma created_at_message150_1:
  "jfield ''created_at'' (case toRecord (message150 1) window_config of Inr r \<Rightarrow> r | Inl err \<Rightarrow> JNull)
     = Some (JStr ''1970-01-01T23:59:59.925Z'')"
  by (simp add: message150_def plain_message_def window_config_def record_eval date_eval
      cong: let_weak_cong)

text \<open>
  Claim C7 as stated fails on the history of 150 messages defined above. The run ends
  without an error after three fetch calls, not two: the second page is not empty and its
  oldest message lies inside the window, so a third page is fetched, which is empty. And
  the file of the first day is not in ascending order of creation time: its first record
  is of the message created at 23:59:59.975, the oldest of that day in the first page,
  and its 26th record is of the message created at 23:59:59.925, the oldest of the second
  page.
\<close>

theorem backfill_150_counterexample:
  "run150 \<noteq> None \<and> fst (the run150) = None \<and> length (pages (snd (the run150))) = 3 \<and>
   jfield ''created_at'' (records_at (fs (snd (the run150))) day1_path ! 0)
     = Some (JStr ''1970-01-01T23:59:59.975Z'') \<and>
   jfield ''created_at'' (records_at (fs (snd (the run150))) day1_path ! 25)
     = Some (JStr ''1970-01-01T23:59:59.925Z'')"
proof -
  let ?b1 = "map message150 [51..<76]" and ?b2 = "map message150 [1..<51]"
  have d: "''1970-01-01'' \<noteq> ''1970-01-02''" by simp
  from backfill_150_run [OF length_history150 ids_history150 times_history150 window_history150
      days_history150 d mappable_history150 files_empty_fs fetch_channel150]
  obtain st where
    run0: "backfill 3 latin_lower utc window_config channel150 empty_fs = Some (None, st)" and
    pg: "pages st = [take 100 history150, drop 100 history150, []]" and
    ct: "\<forall>d \<in> {''1970-01-01'', ''1970-01-02''}.
           files (fs st) (partition_path latin_lower window_config (channelName_of channel150) d) =
             Some (Text_json (JArr (records_of window_config
               (sort_key createdTimestamp
                  (filter (\<lambda>m. localDate utc (createdTimestamp m) = d) (take 100 history150)) @
                sort_key createdTimestamp
                  (filter (\<lambda>m. localDate utc (createdTimestamp m) = d) (drop 100 history150))))))"
    by blast
  from run0 have run: "run150 = Some (None, st)"
    by (simp add: run150_def)
  from ct have "files (fs st) (partition_path latin_lower window_config (channelName_of channel150) ''1970-01-01'') =
             Some (Text_json (JArr (records_of window_config
               (sort_key createdTimestamp
                  (filter (\<lambda>m. localDate utc (createdTimestamp m) = ''1970-01-01'') (take 100 history150)) @
                sort_key createdTimestamp
                  (filter (\<lambda>m. localDate utc (createdTimestamp m) = ''1970-01-01'') (drop 100 history150))))))"
    by blast
  then have f: "files (fs st) day1_path = Some (Text_json (JArr (records_of window_config (?b1 @ ?b2))))"
    by (simp only: day1_path_eq batch1_day1 batch2_day1)
  from f have r: "records_at (fs st) day1_path = records_of window_config (?b1 @ ?b2)"
    by (simp add: records_at_def)
  have r0: "records_of window_config (?b1 @ ?b2) ! 0
      = (case toRecord (message150 51) window_config of Inr r \<Rightarrow> r | Inl err \<Rightarrow> JNull)"
    by (simp add: records_of_def nth_append)
  have r25: "records_of window_config (?b1 @ ?b2) ! 25
      = (case toRecord (message150 1) window_config of Inr r \<Rightarrow> r | Inl err \<Rightarrow> JNull)"
    by (simp add: records_of_def nth_append)
  from run have c1: "run150 \<noteq> None"
    by (metis option.distinct(1))
  from run have t: "the run150 = (None, st)"
    by (metis option.sel)
  have c2: "fst (the run150) = None" and st: "snd (the run150) = st"
    by (simp_all only: t fst_conv snd_conv)
  from st pg have c3: "length (pages (snd (the run150))) = 3"
    by simp
  have c4: "jfield ''created_at'' (records_at (fs (snd (the run150))) day1_path ! 0)
      = Some (JStr ''1970-01-01T23:59:59.975Z'')"
    by (simp only: st r r0 created_at_message150_51)
  have c5: "jfield ''created_at'' (records_at (fs (snd (the run150))) day1_path ! 25)
      = Some (JStr ''1970-01-01T23:59:59.925Z'')"
    by (simp only: st r r25 created_at_message150_1)
  from c1 c2 c3 c4 c5 show ?thesis
    by (intro conjI)
qed

section \<open>Termination of the backfill loop\<close>

lemma fetched_from_Cons:
  assumes "messages_fetch ch 100 b = Inr p" and "reduce_oldest p = Inr oldest"
    and "fetched_from ch (Some (msg_id oldest)) ps"
  shows "fetched_from ch b (p # ps)"
  using assms by (cases ps) simp_all

text \<open>
  The pages of a run, whatever its end: they are the pages that the channel returns for
  the cursors of the loop, none but the last ends the loop, and the last one does when
  the run ends without an error.
\<close>

lemma backfill_loop_fetched:
  assumes "backfill_loop n toLowerCase tz cfg ch name b st = Some (e, st')"
  shows "\<exists>ps. pages st' = pages st @ ps \<and> fetched_from ch b ps \<and>
              (\<forall>p \<in> set (butlast ps). \<not> page_halts cfg p) \<and>
              (e = None \<longrightarrow> ps \<noteq> [] \<and> page_halts cfg (last ps))"
  using assms
proof (induction n arbitrary: b st)
  case 0
  then show ?case by simp
next
  case (Suc n)
  from Suc.prems show ?case
  proof (cases rule: backfill_loop_Suc_cases)
    case (fetch_error err)
    then show ?thesis by (intro exI [of _ "[]"]) simp
  next
    case exhausted
    then show ?thesis
      by (intro exI [of _ "[[]]"]) (simp add: page_halts_Nil)
  next
    case (write_error page err s')
    then show ?thesis by (intro exI [of _ "[page]"]) simp
  next
    case (window_done page s' oldest)
    then show ?thesis
      by (intro exI [of _ "[page]"]) (simp add: page_halts_def)
  next
    case (continue page s' oldest)
    let ?st2 = "st\<lparr>pages := pages st @ [page], total := total st + length page, fs := s'\<rparr>"
    from Suc.IH [OF continue(6)] obtain ps where
      p: "pages st' = pages ?st2 @ ps" and f: "fetched_from ch (Some (msg_id oldest)) ps" and
      nh: "\<forall>p \<in> set (butlast ps). \<not> page_halts cfg p" and
      h: "e = None \<longrightarrow> ps \<noteq> [] \<and> page_halts cfg (last ps)"
      by blast
    from continue(4,5) have np: "\<not> page_halts cfg page"
      by (simp add: page_halts_def)
    from p have "pages st' = pages st @ (page # ps)" by simp
    moreover have "fetched_from ch b (page # ps)"
      using continue(1,4) f by (rule fetched_from_Cons)
    moreover from nh np have "\<forall>p \<in> set (butlast (page # ps)). \<not> page_halts cfg p" by simp
    moreover from h have "e = None \<longrightarrow> page # ps \<noteq> [] \<and> page_halts cfg (last (page # ps))" by simp
    ultimately show ?thesis by blast
  qed
qed

text \<open>
  A run raises nothing when the channel raises nothing, every message of the history can
  be mapped to a record and every file of the file system holds an array.
\<close>

lemma writeMessages_no_error:
  assumes "arrays_only s" and "mappable cfg msgs"
    and "writeMessages toLowerCase tz cfg msgs name s = (e, s')"
  shows "e = None \<and> arrays_only s'"
  using writeMessages_arrays [where toLowerCase = toLowerCase and tz = tz and channelName = name, OF assms(1,2)]
    assms(3) by auto

lemma backfill_loop_no_error:
  assumes "never_raises ch"
    and "\<forall>b page. messages_fetch ch 100 b = Inr page \<longrightarrow> set page \<subseteq> set hist"
    and "mappable cfg hist"
  shows "arrays_only (fs st) \<Longrightarrow> backfill_loop n toLowerCase tz cfg ch name b st = Some (e, st')
           \<Longrightarrow> e = None"
proof (induction n arbitrary: b st)
  case 0
  then show ?case by simp
next
  case (Suc n)
  from Suc.prems(2) show ?case
  proof (cases rule: backfill_loop_Suc_cases)
    case (fetch_error err)
    from assms(1) obtain page where "messages_fetch ch 100 b = Inr page"
      unfolding never_raises_def by blast
    with fetch_error(1) show ?thesis by simp
  next
    case exhausted
    then show ?thesis by simp
  next
    case (write_error page err s')
    from assms(2) write_error(1) have "set (filter (in_window cfg) page) \<subseteq> set hist" by auto
    with assms(3) have "mappable cfg (filter (in_window cfg) page)" by (rule mappable_subset)
    from writeMessages_no_error [OF Suc.prems(1) this write_error(3)] show ?thesis by simp
  next
    case (window_done page s' oldest)
    then show ?thesis by simp
  next
    case (continue page s' oldest)
    from assms(2) continue(1) have "set (filter (in_window cfg) page) \<subseteq> set hist" by auto
    with assms(3) have "mappable cfg (filter (in_window cfg) page)" by (rule mappable_subset)
    from writeMessages_no_error [OF Suc.prems(1) this continue(3)] have "arrays_only s'" by simp
    then have "arrays_only (fs (st\<lparr>pages := pages st @ [page], total := total st + length page, fs := s'\<rparr>))"
      by simp
    from Suc.IH [OF this continue(6)] show ?thesis .
  qed
qed

lemma never_raises_history: "never_raises (history_channel i n hist)"
  by (simp add: never_raises_def history_channel_def history_fetch_def)

lemma toRecord_plain_message:
  assumes "valid_time t"
  shows "\<exists>r. toRecord (plain_message i t) cfg = Inr r"
proof -
  from assms obtain s where "toISOString t = Inr s"
    using toISOString_valid by blast
  then show ?thesis
    by (simp add: toRecord_def edited_at_json_def plain_message_def)
qed

lemma mappable_page_abc: "mappable cfg page_abc"
  unfolding mappable_def page_abc_def
  using toRecord_plain_message by (simp add: valid_time_def)

lemma arrays_only_empty_fs: "arrays_only empty_fs"
  by (simp add: arrays_only_def empty_fs_def)

text \<open>
  Claim C4. On a channel that serves a finite history in strictly decreasing time the
  loop ends: some amount of fuel gives a result, an error or a normal end. The pages of
  the run are the pages that \<open>messages.fetch\<close> returns, the first for no cursor and each
  next one for the id of the oldest message of the page before it, and no page but the
  last is empty or has an oldest message created before \<open>start\<close>. When moreover the
  channel raises nothing, every message of the history can be mapped to a record and
  every file holds an array, the run ends without an error, and its last page is the
  first one that is empty or whose oldest message was created before \<open>start\<close>.
\<close>

theorem backfill_terminates:
  assumes "serves_decreasing ch hist"
  shows "(\<exists>n e st. backfill n toLowerCase tz cfg ch s = Some (e, st) \<and>
            fetched_from ch None (pages st) \<and>
            (\<forall>p \<in> set (butlast (pages st)). \<not> page_halts cfg p)) \<and>
         (never_raises ch \<and> mappable cfg hist \<and> arrays_only s \<longrightarrow>
            (\<exists>n st. backfill n toLowerCase tz cfg ch s = Some (None, st) \<and>
               fetched_from ch None (pages st) \<and> pages st \<noteq> [] \<and>
               page_halts cfg (last (pages st)) \<and>
               (\<forall>p \<in> set (butlast (pages st)). \<not> page_halts cfg p)))"
proof -
  let ?st0 = "\<lparr>fs = s, total = 0, pages = []\<rparr>"
  from backfill_loop_terminates [OF assms] obtain n e st where
    r: "backfill_loop n toLowerCase tz cfg ch (channelName_of ch) None ?st0 = Some (e, st)"
    by fastforce
  from backfill_loop_fetched [OF r] have
    f: "fetched_from ch None (pages st)" and
    nh: "\<forall>p \<in> set (butlast (pages st)). \<not> page_halts cfg p" and
    h: "e = None \<longrightarrow> pages st \<noteq> [] \<and> page_halts cfg (last (pages st))"
    by auto
  from r f nh have 1: "\<exists>n e st. backfill n toLowerCase tz cfg ch s = Some (e, st) \<and>
            fetched_from ch None (pages st) \<and>
            (\<forall>p \<in> set (butlast (pages st)). \<not> page_halts cfg p)"
    unfolding backfill_def by blast
  have 2: "\<exists>n st. backfill n toLowerCase tz cfg ch s = Some (None, st) \<and>
               fetched_from ch None (pages st) \<and> pages st \<noteq> [] \<and>
               page_halts cfg (last (pages st)) \<and>
               (\<forall>p \<in> set (butlast (pages st)). \<not> page_halts cfg p)"
    if "never_raises ch" and "mappable cfg hist" and "arrays_only s"
  proof -
    from assms have sub: "\<forall>b page. messages_fetch ch 100 b = Inr page \<longrightarrow> set page \<subseteq> set hist"
      by (simp add: serves_decreasing_def)
    from that(3) have "arrays_only (fs ?st0)" by simp
    from backfill_loop_no_error [OF that(1) sub that(2) this r] have "e = None" .
    with r f nh h show ?thesis
      unfolding backfill_def by blast
  qed
  from 1 2 show ?thesis by blast
qed

theorem backfill_terminates_witness:
  "serves_decreasing general_channel page_abc \<and> never_raises general_channel \<and>
   mappable window_config page_abc \<and> arrays_only empty_fs \<and>
   (\<exists>n st. backfill n latin_lower utc window_config general_channel empty_fs = Some (None, st) \<and>
      fetched_from general_channel None (pages st) \<and> pages st \<noteq> [] \<and>
      page_halts window_config (last (pages st)) \<and>
      (\<forall>p \<in> set (butlast (pages st)). \<not> page_halts window_config p))"
proof -
  have n: "never_raises general_channel"
    unfolding general_channel_def by (rule never_raises_history)
  have m: "mappable window_config page_abc" by (rule mappable_page_abc)
  from backfill_terminates
    [where toLowerCase = latin_lower and tz = utc and cfg = window_config and s = empty_fs,
     OF general_channel_decreasing]
    n m arrays_only_empty_fs general_channel_decreasing
  show ?thesis by blast
qed
end
